theory Spec2Isabelle
  imports Main "HOL-Library.Sublist" "HOL-Library.Word"
begin

section \<open>JavaScript values\<close>

text \<open>
  This theory embeds three classes of the repository: \<^verbatim>\<open>Transformation\<close> (the second
  file of \<^verbatim>\<open>src/unnamed/part_000\<close>), \<^verbatim>\<open>Query\<close> (\<^verbatim>\<open>src/classes/Query.js\<close>) and
  \<^verbatim>\<open>Authentication\<close> (the first file of \<^verbatim>\<open>src/unnamed/part_000\<close>). A function that
  may throw, or a promise that may reject, gives a value of a sum type, with the error on the
  left. What the classes call in modules that are not among the sources is a parameter.

  The values the program handles are JSON-shaped JavaScript values. An object is the list of
  its own properties in enumeration order (the order of \<^verbatim>\<open>Object.keys\<close>), with distinct
  keys. \<open>JUndef\<close> is JavaScript's \<^verbatim>\<open>undefined\<close>. \<open>JFun f\<close> is the built-in function
  with the name \<open>f\<close>: no JSON value, but what reading \<^verbatim>\<open>value.toString\<close> gives.

  A string is a list of characters, each standing for one code unit below 256: the strings of
  the model are those of Latin-1. \<open>JNum n\<close> stands for the number \<open>n\<close> when a double holds
  the integer \<open>n\<close> exactly and prints it as a decimal numeral, which is so for every \<open>n\<close>
  between \<open>- 2 ^ 53\<close> and \<open>2 ^ 53\<close> (\<open>js_number\<close>); other numbers are outside the model.
\<close>

datatype json =
    JUndef
  | JNull
  | JBool bool
  | JNum int
  | JStr string
  | JArr "json list"
  | JObj "(string \<times> json) list"
  | JFun string

definition js_number :: "int \<Rightarrow> bool" where
  "js_number n = (- (2 ^ 53) \<le> n \<and> n \<le> 2 ^ 53)"

text \<open>
  What a function throws, or a promise rejects with. \<open>Unmodelled\<close> is no error of the
  program: it marks a run that leaves the values described above (it reads
  \<^verbatim>\<open>__proto__\<close> or a property of a built-in function, calls a function that a value
  holds, gives an object another prototype or, among shared objects, follows a reference
  against the order of the heap). The model does not follow such a run.
\<close>

datatype error =
    Error string
  | TypeError
  | QueryError "(string option \<times> string) list"
  | Unmodelled

text \<open>\<^verbatim>\<open>typeof v\<close>.\<close>

fun typeof :: "json \<Rightarrow> string" where
  "typeof JUndef = ''undefined''"
| "typeof JNull = ''object''"
| "typeof (JBool b) = ''boolean''"
| "typeof (JNum n) = ''number''"
| "typeof (JStr s) = ''string''"
| "typeof (JArr xs) = ''object''"
| "typeof (JObj kvs) = ''object''"
| "typeof (JFun f) = ''function''"

text \<open>\<^verbatim>\<open>v === null || typeof v === 'undefined'\<close>.\<close>

fun is_nullish :: "json \<Rightarrow> bool" where
  "is_nullish JUndef = True"
| "is_nullish JNull = True"
| "is_nullish v = False"

text \<open>The truthiness test of \<^verbatim>\<open>if (v)\<close>, \<^verbatim>\<open>!v\<close> and \<^verbatim>\<open>v ? a : b\<close>.\<close>

fun truthy :: "json \<Rightarrow> bool" where
  "truthy JUndef = False"
| "truthy JNull = False"
| "truthy (JBool b) = b"
| "truthy (JNum n) = (n \<noteq> 0)"
| "truthy (JStr s) = (s \<noteq> [])"
| "truthy (JArr xs) = True"
| "truthy (JObj kvs) = True"
| "truthy (JFun f) = True"

text \<open>Decimal numerals, as \<^verbatim>\<open>String(n)\<close> and \<^verbatim>\<open>JSON.stringify(n)\<close> print an integer.\<close>

definition digit_char :: "nat \<Rightarrow> char" where
  "digit_char d = ''0123456789'' ! (d mod 10)"

fun show_nat :: "nat \<Rightarrow> string" where
  "show_nat n = (if n < 10 then [digit_char n] else show_nat (n div 10) @ [digit_char (n mod 10)])"

declare show_nat.simps [simp del]

definition show_int :: "int \<Rightarrow> string" where
  "show_int i = (if i < 0 then CHR ''-'' # show_nat (nat (- i)) else show_nat (nat i))"

subsection \<open>Properties\<close>

text \<open>
  Reading an array index: the canonical numeral of a natural number, and nothing else,
  names an element.
\<close>

definition array_index :: "string \<Rightarrow> nat \<Rightarrow> nat option" where
  "array_index k n = find (\<lambda>i. show_nat i = k) [0..<n]"

text \<open>
  The own properties of a value that \<^verbatim>\<open>v[k]\<close> can read: the properties of an object, the
  elements of an array or the characters of a string, and \<^verbatim>\<open>length\<close>.
\<close>

fun own_property :: "json \<Rightarrow> string \<Rightarrow> json option" where
  "own_property (JStr s) k =
     (if k = ''length'' then Some (JNum (int (length s)))
      else map_option (\<lambda>i. JStr [s ! i]) (array_index k (length s)))"
| "own_property (JArr xs) k =
     (if k = ''length'' then Some (JNum (int (length xs)))
      else map_option (\<lambda>i. xs ! i) (array_index k (length xs)))"
| "own_property (JObj kvs) k = map_of kvs k"
| "own_property v k = None"

text \<open>
  The functions that a value inherits from the built-in prototypes, by name: those of
  ECMAScript 2015, the language of the sources, with its annex B. Every value inherits the
  functions of \<^verbatim>\<open>Object.prototype\<close>; an array, a string, a number and a boolean inherit
  those of the prototype of their type before them.
\<close>

definition object_prototype :: "string list" where
  "object_prototype =
     [''constructor'', ''hasOwnProperty'', ''isPrototypeOf'', ''propertyIsEnumerable'',
      ''toLocaleString'', ''toString'', ''valueOf'', ''__defineGetter__'', ''__defineSetter__'',
      ''__lookupGetter__'', ''__lookupSetter__'']"

definition array_prototype :: "string list" where
  "array_prototype =
     [''concat'', ''copyWithin'', ''entries'', ''every'', ''fill'', ''filter'', ''find'',
      ''findIndex'', ''forEach'', ''indexOf'', ''join'', ''keys'', ''lastIndexOf'', ''map'',
      ''pop'', ''push'', ''reduce'', ''reduceRight'', ''reverse'', ''shift'', ''slice'', ''some'',
      ''sort'', ''splice'', ''unshift'', ''values'']"

definition string_prototype :: "string list" where
  "string_prototype =
     [''charAt'', ''charCodeAt'', ''codePointAt'', ''concat'', ''endsWith'', ''includes'',
      ''indexOf'', ''lastIndexOf'', ''localeCompare'', ''match'', ''normalize'', ''repeat'',
      ''replace'', ''search'', ''slice'', ''split'', ''startsWith'', ''substring'',
      ''toLocaleLowerCase'', ''toLocaleUpperCase'', ''toLowerCase'', ''toUpperCase'', ''trim'',
      ''substr'', ''anchor'', ''big'', ''blink'', ''bold'', ''fixed'', ''fontcolor'', ''fontsize'',
      ''italics'', ''link'', ''small'', ''strike'', ''sub'', ''sup'']"

definition number_prototype :: "string list" where
  "number_prototype = [''toExponential'', ''toFixed'', ''toPrecision'']"

fun prototype_chain :: "json \<Rightarrow> string list" where
  "prototype_chain (JStr s) = string_prototype @ object_prototype"
| "prototype_chain (JArr xs) = array_prototype @ object_prototype"
| "prototype_chain (JNum n) = number_prototype @ object_prototype"
| "prototype_chain v = object_prototype"

text \<open>The name of the function that \<^verbatim>\<open>v.constructor\<close> is.\<close>

fun constructor_name :: "json \<Rightarrow> string" where
  "constructor_name (JStr s) = ''String''"
| "constructor_name (JArr xs) = ''Array''"
| "constructor_name (JNum n) = ''Number''"
| "constructor_name (JBool b) = ''Boolean''"
| "constructor_name v = ''Object''"

definition inherited :: "json \<Rightarrow> string \<Rightarrow> json option" where
  "inherited v k =
     (if k \<in> set (prototype_chain v)
      then Some (JFun (if k = ''constructor'' then constructor_name v else k))
      else None)"

text \<open>
  \<^verbatim>\<open>v[k]\<close> for a property name \<open>k\<close>: an own property, or else the function that the
  value inherits under the name, or else \<^verbatim>\<open>undefined\<close>. Reading a property of
  \<^verbatim>\<open>null\<close> or \<^verbatim>\<open>undefined\<close> throws a TypeError. The inherited \<^verbatim>\<open>__proto__\<close>
  is the prototype object itself, and a built-in function has properties of its own kind:
  the model follows neither.
\<close>

fun js_get :: "json \<Rightarrow> string \<Rightarrow> error + json" where
  "js_get JUndef k = Inl TypeError"
| "js_get JNull k = Inl TypeError"
| "js_get (JFun f) k = Inl Unmodelled"
| "js_get v k =
     (case own_property v k of
        Some x \<Rightarrow> Inr x
      | None \<Rightarrow>
          if k = ''__proto__'' then Inl Unmodelled
          else (case inherited v k of Some f \<Rightarrow> Inr f | None \<Rightarrow> Inr JUndef))"

text \<open>
  \<^verbatim>\<open>Object.keys(v)\<close> paired with the values: the entries of an object, the indexed elements
  of an array, the indexed characters of a string, nothing for a number, a boolean or a
  built-in function, and a TypeError for \<^verbatim>\<open>null\<close> and \<^verbatim>\<open>undefined\<close>.
\<close>

fun object_entries :: "json \<Rightarrow> error + (string \<times> json) list" where
  "object_entries JUndef = Inl TypeError"
| "object_entries JNull = Inl TypeError"
| "object_entries (JBool b) = Inr []"
| "object_entries (JNum n) = Inr []"
| "object_entries (JStr s) = Inr (zip (map show_nat [0..<length s]) (map (\<lambda>c. JStr [c]) s))"
| "object_entries (JArr xs) = Inr (zip (map show_nat [0..<length xs]) xs)"
| "object_entries (JObj kvs) = Inr kvs"
| "object_entries (JFun f) = Inr []"

text \<open>
  \<^verbatim>\<open>_.cloneDeep(v)\<close>: a structurally equal copy. A function inside an array or an object
  is kept as it is; the clone of a function itself is an empty object.
\<close>

fun clone_part :: "json \<Rightarrow> json" where
  "clone_part (JArr xs) = JArr (map clone_part xs)"
| "clone_part (JObj kvs) = JObj (map (\<lambda>(k, v). (k, clone_part v)) kvs)"
| "clone_part v = v"

definition cloneDeep :: "json \<Rightarrow> json" where
  "cloneDeep v = (case v of JFun f \<Rightarrow> JObj [] | _ \<Rightarrow> clone_part v)"

subsection \<open>Strings\<close>

text \<open>\<^verbatim>\<open>xs.join(sep)\<close> on strings.\<close>

fun join_strings :: "string \<Rightarrow> string list \<Rightarrow> string" where
  "join_strings sep [] = []"
| "join_strings sep [x] = x"
| "join_strings sep (x # y # ys) = x @ sep @ join_strings sep (y # ys)"

text \<open>
  \<^verbatim>\<open>String(v)\<close>: the conversion that \<^verbatim>\<open>join\<close> and \<^verbatim>\<open>split\<close> apply to a
  value that is not a string. An array prints as its elements joined by a comma, with
  \<^verbatim>\<open>null\<close> and \<^verbatim>\<open>undefined\<close> elements empty. An object prints through its
  \<^verbatim>\<open>toString\<close>, which is the inherited one unless the object has a property of that name:
  a property that holds no function is passed over for \<^verbatim>\<open>valueOf\<close>, and when that gives
  no primitive value either, the conversion throws a TypeError.
\<close>

fun js_toString :: "json \<Rightarrow> error + string"
  and strings_of :: "json list \<Rightarrow> error + string list" where
  "js_toString JUndef = Inr ''undefined''"
| "js_toString JNull = Inr ''null''"
| "js_toString (JBool b) = Inr (if b then ''true'' else ''false'')"
| "js_toString (JNum n) = Inr (show_int n)"
| "js_toString (JStr s) = Inr s"
| "js_toString (JFun f) = Inr (''function '' @ f @ ''() { [native code] }'')"
| "js_toString (JArr xs) =
     (case strings_of xs of Inl e \<Rightarrow> Inl e | Inr ss \<Rightarrow> Inr (join_strings '','' ss))"
| "js_toString (JObj kvs) =
     (case map_of kvs ''toString'' of
        None \<Rightarrow> Inr ''[object Object]''
      | Some (JFun f) \<Rightarrow> Inl Unmodelled
      | Some t \<Rightarrow>
          (case map_of kvs ''valueOf'' of
             Some (JFun f) \<Rightarrow> Inl Unmodelled
           | _ \<Rightarrow> Inl TypeError))"
| "strings_of [] = Inr []"
| "strings_of (x # xs) =
     (case (if is_nullish x then Inr [] else js_toString x) of
        Inl e \<Rightarrow> Inl e
      | Inr s \<Rightarrow> (case strings_of xs of Inl e \<Rightarrow> Inl e | Inr ss \<Rightarrow> Inr (s # ss)))"

text \<open>\<^verbatim>\<open>xs.join(sep)\<close> on an array of values, for a separator that is a string.\<close>

definition js_join :: "json list \<Rightarrow> string \<Rightarrow> error + string" where
  "js_join xs sep = (case strings_of xs of Inl e \<Rightarrow> Inl e | Inr ss \<Rightarrow> Inr (join_strings sep ss))"

text \<open>
  \<^verbatim>\<open>s.split(sep)\<close> for a string separator, without a limit. With a non-empty separator
  the string is scanned from the left: \<open>cur\<close> is the piece read so far, and a match of
  the separator closes it. With the empty separator every character is a piece.
\<close>

fun split_scan :: "string \<Rightarrow> string \<Rightarrow> string \<Rightarrow> string list" where
  "split_scan sep cur [] = [cur]"
| "split_scan sep cur (c # cs) =
     (if sep \<noteq> [] \<and> take (length sep) (c # cs) = sep
      then cur # split_scan sep [] (drop (length sep) (c # cs))
      else split_scan sep (cur @ [c]) cs)"

definition js_split :: "string \<Rightarrow> string \<Rightarrow> string list" where
  "js_split s sep = (if sep = [] then map (\<lambda>c. [c]) s else split_scan sep [] s)"

text \<open>
  \<^verbatim>\<open>s.substring(start, end)\<close> for integer bounds; \<open>None\<close> as the end is
  \<^verbatim>\<open>Infinity\<close>. Both bounds are clamped to the string and swapped when out of order.
\<close>

definition clamp_index :: "nat \<Rightarrow> int \<Rightarrow> nat" where
  "clamp_index len i = (if i < 0 then 0 else min (nat i) len)"

definition js_substring :: "string \<Rightarrow> int \<Rightarrow> int option \<Rightarrow> string" where
  "js_substring s start end =
     (let a = clamp_index (length s) start;
          b = (case end of None \<Rightarrow> length s | Some e \<Rightarrow> clamp_index (length s) e)
      in take (max a b - min a b) (drop (min a b) s))"

text \<open>
  \<^verbatim>\<open>s.trim()\<close> and \<^verbatim>\<open>s.toLowerCase()\<close> on the strings of Latin-1: the white space
  is tab, line feed, vertical tab, form feed, carriage return, space and no-break space; the
  capital letters are A to Z and, but for the multiplication sign, the code units 192 to 222.
\<close>

definition is_space :: "char \<Rightarrow> bool" where
  "is_space c = (of_char c \<in> {9, 10, 11, 12, 13, 32, 160 :: nat})"

definition js_trim :: "string \<Rightarrow> string" where
  "js_trim s = rev (dropWhile is_space (rev (dropWhile is_space s)))"

definition lower_char :: "char \<Rightarrow> char" where
  "lower_char c =
     (let n = (of_char c :: nat)
      in if (65 \<le> n \<and> n \<le> 90) \<or> (192 \<le> n \<and> n \<le> 222 \<and> n \<noteq> 215) then char_of (n + 32) else c)"

definition js_toLowerCase :: "string \<Rightarrow> string" where
  "js_toLowerCase s = map lower_char s"

subsection \<open>Numbers from strings\<close>

text \<open>
  \<^verbatim>\<open>v > 0\<close> converts \<open>v\<close> to a number. For a string this is the number that the string
  spells, after trimming: nothing spells zero; \<^verbatim>\<open>0x\<close>, \<^verbatim>\<open>0o\<close> and \<^verbatim>\<open>0b\<close> introduce
  hexadecimal, octal and binary digits; else an optional sign is followed by
  \<^verbatim>\<open>Infinity\<close> or by decimal digits with an optional fraction and an optional
  exponent. Anything else is not a number, and no comparison holds of it. \<open>positive_numeral\<close>
  says whether the number spelt is greater than zero: the sign is not a minus, some digit of
  the mantissa is not zero, and the number is not so small that it is rounded to zero (a
  double rounds to zero what is at most \<open>2 ^ - 1075\<close>).
\<close>

definition digit_value :: "char \<Rightarrow> nat option" where
  "digit_value c =
     (let n = (of_char c :: nat)
      in if 48 \<le> n \<and> n \<le> 57 then Some (n - 48)
         else if 97 \<le> n \<and> n \<le> 102 then Some (n - 87)
         else if 65 \<le> n \<and> n \<le> 70 then Some (n - 55)
         else None)"

definition digits_in :: "nat \<Rightarrow> string \<Rightarrow> bool" where
  "digits_in base ds = (\<forall>c \<in> set ds. case digit_value c of Some d \<Rightarrow> d < base | None \<Rightarrow> False)"

definition nonzero_digit :: "string \<Rightarrow> bool" where
  "nonzero_digit ds = (\<exists>c \<in> set ds. c \<noteq> CHR ''0'')"

definition decimal_value :: "string \<Rightarrow> nat" where
  "decimal_value ds = foldl (\<lambda>n c. 10 * n + (case digit_value c of Some d \<Rightarrow> d | None \<Rightarrow> 0)) 0 ds"

text \<open>The exponent part, after the letter: its value, if it is well formed.\<close>

definition exponent_value :: "string \<Rightarrow> int option" where
  "exponent_value e =
     (let ds = (case e of c # r \<Rightarrow> if c = CHR ''+'' \<or> c = CHR ''-'' then r else e | [] \<Rightarrow> e)
      in if ds \<noteq> [] \<and> digits_in 10 ds
         then Some (if take 1 e = ''-'' then - int (decimal_value ds) else int (decimal_value ds))
         else None)"

text \<open>
  An unsigned decimal literal: \<open>m\<close> is what stands before the exponent letter (all of it
  when there is none) and \<open>e\<close> the exponent, zero when there is none.
\<close>

definition positive_decimal :: "string \<Rightarrow> bool" where
  "positive_decimal t =
     (let m = takeWhile (\<lambda>c. c \<noteq> CHR ''e'' \<and> c \<noteq> CHR ''E'') t;
          rest = dropWhile (\<lambda>c. c \<noteq> CHR ''e'' \<and> c \<noteq> CHR ''E'') t;
          whole = takeWhile (\<lambda>c. c \<noteq> CHR ''.'') m;
          fraction = drop 1 (dropWhile (\<lambda>c. c \<noteq> CHR ''.'') m)
      in if \<not> (digits_in 10 whole \<and> digits_in 10 fraction \<and> whole @ fraction \<noteq> [])
         then False
         else case (if rest = [] then Some 0 else exponent_value (drop 1 rest)) of
                None \<Rightarrow> False
              | Some e \<Rightarrow>
                  nonzero_digit (whole @ fraction) \<and>
                  (let scale = e - int (length fraction)
                   in 0 \<le> scale \<or>
                      10 ^ nat (- scale) < decimal_value (whole @ fraction) * 2 ^ 1075))"

definition positive_numeral :: "string \<Rightarrow> bool" where
  "positive_numeral s =
     (let t = js_trim s
      in if take 2 t \<in> {''0x'', ''0X''} then drop 2 t \<noteq> [] \<and> digits_in 16 (drop 2 t) \<and> nonzero_digit (drop 2 t)
         else if take 2 t \<in> {''0o'', ''0O''} then drop 2 t \<noteq> [] \<and> digits_in 8 (drop 2 t) \<and> nonzero_digit (drop 2 t)
         else if take 2 t \<in> {''0b'', ''0B''} then drop 2 t \<noteq> [] \<and> digits_in 2 (drop 2 t) \<and> nonzero_digit (drop 2 t)
         else if take 1 t = ''-'' then False
         else (let u = (if take 1 t = ''+'' then drop 1 t else t)
               in u = ''Infinity'' \<or> positive_decimal u))"

text \<open>
  \<^verbatim>\<open>v > 0\<close>. An object is converted through its \<^verbatim>\<open>valueOf\<close> and then its
  \<^verbatim>\<open>toString\<close>: the inherited ones give the text \<^verbatim>\<open>[object Object]\<close>, which is no
  number; a property of one of these names that holds no function is passed over, and when
  \<^verbatim>\<open>toString\<close> is passed over the conversion throws a TypeError. An array is converted
  through its text.
\<close>

fun greater_than_zero :: "json \<Rightarrow> error + bool" where
  "greater_than_zero JUndef = Inr False"
| "greater_than_zero JNull = Inr False"
| "greater_than_zero (JBool b) = Inr b"
| "greater_than_zero (JNum n) = Inr (0 < n)"
| "greater_than_zero (JStr s) = Inr (positive_numeral s)"
| "greater_than_zero (JFun f) = Inr False"
| "greater_than_zero (JArr xs) =
     (case js_toString (JArr xs) of Inl e \<Rightarrow> Inl e | Inr s \<Rightarrow> Inr (positive_numeral s))"
| "greater_than_zero (JObj kvs) =
     (case map_of kvs ''valueOf'' of
        Some (JFun f) \<Rightarrow> Inl Unmodelled
      | _ \<Rightarrow>
          (case map_of kvs ''toString'' of
             None \<Rightarrow> Inr False
           | Some (JFun f) \<Rightarrow> Inl Unmodelled
           | Some t \<Rightarrow> Inl TypeError))"

subsection \<open>JSON.stringify\<close>

definition hex_digit :: "nat \<Rightarrow> char" where
  "hex_digit d = ''0123456789abcdef'' ! (d mod 16)"

definition escape_char :: "char \<Rightarrow> string" where
  "escape_char c =
     (let n = (of_char c :: nat) in
      if c = CHR 0x22 then [CHR 0x5C, CHR 0x22]
      else if c = CHR 0x5C then [CHR 0x5C, CHR 0x5C]
      else if n = 8 then [CHR 0x5C, CHR ''b'']
      else if n = 9 then [CHR 0x5C, CHR ''t'']
      else if n = 10 then [CHR 0x5C, CHR ''n'']
      else if n = 12 then [CHR 0x5C, CHR ''f'']
      else if n = 13 then [CHR 0x5C, CHR ''r'']
      else if n < 32 then [CHR 0x5C, CHR ''u'', CHR ''0'', CHR ''0'', hex_digit (n div 16), hex_digit (n mod 16)]
      else [c])"

definition quote :: "string \<Rightarrow> string" where
  "quote s = [CHR 0x22] @ concat (map escape_char s) @ [CHR 0x22]"

text \<open>
  \<^verbatim>\<open>JSON.stringify(v)\<close>; \<open>None\<close> is the result \<^verbatim>\<open>undefined\<close>, which
  \<^verbatim>\<open>undefined\<close> and a function give. Inside an array they print as \<^verbatim>\<open>null\<close>; inside
  an object a property that holds one of them is left out.
\<close>

fun stringify :: "json \<Rightarrow> string option"
  and stringify_elems :: "json list \<Rightarrow> string list"
  and stringify_props :: "(string \<times> json) list \<Rightarrow> string list" where
  "stringify JUndef = None"
| "stringify (JFun f) = None"
| "stringify JNull = Some ''null''"
| "stringify (JBool b) = Some (if b then ''true'' else ''false'')"
| "stringify (JNum n) = Some (show_int n)"
| "stringify (JStr s) = Some (quote s)"
| "stringify (JArr xs) = Some (''['' @ join_strings '','' (stringify_elems xs) @ '']'')"
| "stringify (JObj kvs) = Some (''{'' @ join_strings '','' (stringify_props kvs) @ ''}'')"
| "stringify_elems [] = []"
| "stringify_elems (x # xs) =
     (case stringify x of None \<Rightarrow> ''null'' | Some s \<Rightarrow> s) # stringify_elems xs"
| "stringify_props [] = []"
| "stringify_props ((k, v) # kvs) =
     (case stringify v of
        None \<Rightarrow> stringify_props kvs
      | Some s \<Rightarrow> (quote k @ '':'' @ s) # stringify_props kvs)"

text \<open>
  \<^verbatim>\<open>JSON.stringify\<close> calls the \<^verbatim>\<open>toJSON\<close> of an object that has one. No JSON value
  inherits one; \<open>has_toJSON\<close> finds an object with a property of that name that holds a
  function.
\<close>

fun has_toJSON :: "json \<Rightarrow> bool" where
  "has_toJSON (JArr xs) = (\<exists>x \<in> set xs. has_toJSON x)"
| "has_toJSON (JObj kvs) =
     ((case map_of kvs ''toJSON'' of Some (JFun f) \<Rightarrow> True | _ \<Rightarrow> False)
      \<or> (\<exists>p \<in> set kvs. has_toJSON (snd p)))"
| "has_toJSON v = False"

section \<open>Transformation\<close>

text \<open>
  The libraries the operators call are parameters of the model: \<^verbatim>\<open>JsonPath.query\<close>,
  cheerio's selection of HTML nodes (\<open>'n\<close> is the type of a node), the digest of
  \<^verbatim>\<open>Crypto.createHash(algorithm).update(data).digest(encoding)\<close>, and the functions
  that every object inherits under a name that starts with two underscores. Each of them
  may throw.

  \<^verbatim>\<open>JsonPath.query(value, q)\<close> descends from the value and returns the parts of it that the
  expression selects, in an array. \<open>jsonpath_query libs value q\<close> gives the places of
  these parts: each is the path of property names that leads from the value to the part.
\<close>

type_synonym path = "string list"

record 'n libs =
  jsonpath_query :: "json \<Rightarrow> string \<Rightarrow> error + path list"
  select_html :: "string \<Rightarrow> string \<Rightarrow> error + 'n list"
  select_node :: "string \<Rightarrow> 'n \<Rightarrow> error + 'n list"
  node_html :: "'n \<Rightarrow> string"
  node_text :: "'n \<Rightarrow> string"
  html_attr :: "string \<Rightarrow> string \<Rightarrow> error + json"
  create_hash :: "json \<Rightarrow> json \<Rightarrow> json \<Rightarrow> error + json"
  call_inherited :: "string \<Rightarrow> json \<Rightarrow> json \<Rightarrow> error + json"

text \<open>
  \<^verbatim>\<open>typeof this['_' + key] === 'function'\<close> holds for the eighteen methods of the class,
  and for the four keys that reach a function of \<^verbatim>\<open>Object.prototype\<close>
  (\<^verbatim>\<open>__defineGetter__\<close> and its siblings).
\<close>

definition operators :: "string list" where
  "operators =
     [''single'', ''multiple'', ''static'', ''object'', ''map'', ''substring'', ''length'',
      ''hash'', ''array'', ''join'', ''split'', ''filter'', ''htmlTag'', ''htmlTags'',
      ''htmlTagText'', ''htmlTagsText'', ''htmlAttribute'', ''htmlTable'']"

definition inherited_functions :: "string list" where
  "inherited_functions =
     [''_defineGetter__'', ''_defineSetter__'', ''_lookupGetter__'', ''_lookupSetter__'']"

definition is_function :: "string \<Rightarrow> bool" where
  "is_function key = (key \<in> set operators \<or> key \<in> set inherited_functions)"

subsection \<open>The operators that do not run a nested transformation\<close>

text \<open>
  \<open>op_single\<close> is the method \<^verbatim>\<open>_single\<close>, and so on (lines 151 to 347); the first
  argument of a method is the current value, the second the options that the template gives
  for the key.
\<close>

definition is_word_char :: "char \<Rightarrow> bool" where
  "is_word_char c =
     (let n = (of_char c :: nat)
      in (48 \<le> n \<and> n \<le> 57) \<or> (65 \<le> n \<and> n \<le> 90) \<or> (97 \<le> n \<and> n \<le> 122) \<or> n = 95)"

text \<open>The match of \<^verbatim>\<open>/^\$\.([\w]+)$/\<close>: the property name, if the query is that simple.\<close>

definition simple_property :: "string \<Rightarrow> string option" where
  "simple_property q =
     (if take 2 q = ''$.'' \<and> drop 2 q \<noteq> [] \<and> list_all is_word_char (drop 2 q)
      then Some (drop 2 q) else None)"

text \<open>The part of a value at a path, and the parts at a list of paths.\<close>

fun follow :: "json \<Rightarrow> path \<Rightarrow> error + json" where
  "follow v [] = Inr v"
| "follow v (k # p) = (case js_get v k of Inl e \<Rightarrow> Inl e | Inr x \<Rightarrow> follow x p)"

fun follow_all :: "json \<Rightarrow> path list \<Rightarrow> error + json list" where
  "follow_all v [] = Inr []"
| "follow_all v (p # ps) =
     (case follow v p of
        Inl e \<Rightarrow> Inl e
      | Inr x \<Rightarrow> (case follow_all v ps of Inl e \<Rightarrow> Inl e | Inr xs \<Rightarrow> Inr (x # xs)))"

definition op_single :: "'n libs \<Rightarrow> json \<Rightarrow> json \<Rightarrow> error + json" where
  "op_single libs value options =
     (case options of
        JStr q \<Rightarrow>
          (case simple_property q of
             Some name \<Rightarrow>
               (case js_get value name of
                  Inl e \<Rightarrow> Inl e
                | Inr r \<Rightarrow> Inr (if typeof r = ''undefined'' then JNull else r))
           | None \<Rightarrow>
               (case jsonpath_query libs value q of
                  Inl e \<Rightarrow> Inl e
                | Inr result \<Rightarrow> (case result of [] \<Rightarrow> Inr JNull | p # _ \<Rightarrow> follow value p)))
      | _ \<Rightarrow> Inl (Error ''Value of \"single\" function must be a string''))"

definition op_multiple :: "'n libs \<Rightarrow> json \<Rightarrow> json \<Rightarrow> error + json" where
  "op_multiple libs value options =
     (case options of
        JStr q \<Rightarrow>
          (case jsonpath_query libs value q of
             Inl e \<Rightarrow> Inl e
           | Inr result \<Rightarrow>
               (case follow_all value result of Inl e \<Rightarrow> Inl e | Inr parts \<Rightarrow> Inr (JArr parts)))
      | _ \<Rightarrow> Inl (Error ''Value of \"multiple\" functions must be a string''))"

definition op_static :: "json \<Rightarrow> json \<Rightarrow> error + json" where
  "op_static value options = Inr options"

definition op_substring :: "json \<Rightarrow> json \<Rightarrow> error + json" where
  "op_substring value options =
     (case value of
        JStr s \<Rightarrow>
          (case js_get options ''start'' of
             Inl e \<Rightarrow> Inl e
           | Inr st \<Rightarrow>
               (case js_get options ''length'' of
                  Inl e \<Rightarrow> Inl e
                | Inr ln \<Rightarrow>
                    (let start = (case st of JNum n \<Rightarrow> n | _ \<Rightarrow> 0)
                     in Inr (JStr (js_substring s start
                                     (case ln of JNum l \<Rightarrow> Some (start + l) | _ \<Rightarrow> None))))))
      | _ \<Rightarrow> Inl (Error (''Cannot execute substring on '' @ typeof value)))"

definition op_length :: "json \<Rightarrow> error + json" where
  "op_length value =
     (case value of
        JStr s \<Rightarrow> Inr (JNum (int (length s)))
      | JArr xs \<Rightarrow> Inr (JNum (int (length xs)))
      | _ \<Rightarrow> Inl (Error ''Can only get length of arrays and strings''))"

text \<open>
  \<^verbatim>\<open>_.defaults(options, {encoding: 'hex', algorithm: 'md5'})\<close> (lodash 4) sets each of
  the two properties that is missing or \<^verbatim>\<open>undefined\<close>, in the object itself, and returns
  the object. For options that are no plain object the result carries the two defaults, the
  only properties read afterwards. Options that are a function would receive the two
  properties as well: a built-in function would change, which the model does not follow.
\<close>

definition set_default :: "string \<Rightarrow> json \<Rightarrow> (string \<times> json) list \<Rightarrow> (string \<times> json) list" where
  "set_default k d kvs =
     (case map_of kvs k of
        None \<Rightarrow> kvs @ [(k, d)]
      | Some v \<Rightarrow> if v = JUndef then map (\<lambda>(k', v'). if k' = k then (k', d) else (k', v')) kvs
                  else kvs)"

fun hash_defaults :: "json \<Rightarrow> json" where
  "hash_defaults (JObj kvs) =
     JObj (set_default ''algorithm'' (JStr ''md5'') (set_default ''encoding'' (JStr ''hex'') kvs))"
| "hash_defaults v = JObj [(''encoding'', JStr ''hex''), (''algorithm'', JStr ''md5'')]"

definition op_hash :: "'n libs \<Rightarrow> json \<Rightarrow> json \<Rightarrow> error + json" where
  "op_hash libs value options =
     (if has_toJSON value \<or> typeof options = ''function'' then Inl Unmodelled
      else
        (let data = (case value of
                       JStr s \<Rightarrow> JStr s
                     | _ \<Rightarrow> (case stringify value of None \<Rightarrow> JUndef | Some s \<Rightarrow> JStr s));
             options' = hash_defaults options
         in case js_get options' ''algorithm'' of
              Inl e \<Rightarrow> Inl e
            | Inr algorithm \<Rightarrow>
                (case js_get options' ''encoding'' of
                   Inl e \<Rightarrow> Inl e
                 | Inr encoding \<Rightarrow> create_hash libs algorithm encoding data)))"

text \<open>
  \<^verbatim>\<open>value.join(separator)\<close> and \<^verbatim>\<open>value.split(separator)\<close> convert a separator
  that is no string to one, before anything else.
\<close>

definition op_join :: "json \<Rightarrow> json \<Rightarrow> error + json" where
  "op_join value options =
     (case value of
        JArr xs \<Rightarrow>
          (case js_get options ''separator'' of
             Inl e \<Rightarrow> Inl e
           | Inr sep \<Rightarrow>
               (case (if truthy sep then js_toString sep else Inr []) of
                  Inl e \<Rightarrow> Inl e
                | Inr separator \<Rightarrow>
                    (case js_join xs separator of Inl e \<Rightarrow> Inl e | Inr s \<Rightarrow> Inr (JStr s))))
      | _ \<Rightarrow> Inl (Error ''Value for join transformation must be an array''))"

definition op_split :: "json \<Rightarrow> json \<Rightarrow> error + json" where
  "op_split value options =
     (case js_get options ''separator'' of
        Inl e \<Rightarrow> Inl e
      | Inr sep \<Rightarrow>
          if \<not> truthy sep then Inl (Error ''Missing separator for split transformation'')
          else (case value of
                  JStr s \<Rightarrow>
                    (case js_toString sep of
                       Inl e \<Rightarrow> Inl e
                     | Inr separator \<Rightarrow> Inr (JArr (map JStr (js_split s separator))))
                | _ \<Rightarrow> Inr (JArr [])))"

definition op_filter :: "json \<Rightarrow> error + json" where
  "op_filter value =
     (case value of
        JArr xs \<Rightarrow> Inr (JArr (filter truthy xs))
      | _ \<Rightarrow> Inl (Error ''Value for filter transformation must be an array''))"

definition op_htmlTag :: "'n libs \<Rightarrow> json \<Rightarrow> json \<Rightarrow> error + json" where
  "op_htmlTag libs value options =
     (case options of
        JStr sel \<Rightarrow>
          (case value of
             JStr html \<Rightarrow>
               (case select_html libs sel html of
                  Inl e \<Rightarrow> Inl e
                | Inr result \<Rightarrow>
                    Inr (case result of [] \<Rightarrow> JNull | n # _ \<Rightarrow> JStr (node_html libs n)))
           | _ \<Rightarrow> Inr JNull)
      | _ \<Rightarrow> Inl (Error ''Value of \"htmlTag\" functions must be a string''))"

definition op_htmlTags :: "'n libs \<Rightarrow> json \<Rightarrow> json \<Rightarrow> error + json" where
  "op_htmlTags libs value options =
     (case options of
        JStr sel \<Rightarrow>
          (case value of
             JStr html \<Rightarrow>
               (case select_html libs sel html of
                  Inl e \<Rightarrow> Inl e
                | Inr result \<Rightarrow> Inr (JArr (map (\<lambda>n. JStr (node_html libs n)) result)))
           | _ \<Rightarrow> Inr (JArr []))
      | _ \<Rightarrow> Inl (Error ''Value of \"htmlTags\" functions must be a string''))"

definition op_htmlTagText :: "'n libs \<Rightarrow> json \<Rightarrow> json \<Rightarrow> error + json" where
  "op_htmlTagText libs value options =
     (case options of
        JStr sel \<Rightarrow>
          (case value of
             JStr html \<Rightarrow>
               (case select_html libs sel html of
                  Inl e \<Rightarrow> Inl e
                | Inr result \<Rightarrow>
                    Inr (case result of [] \<Rightarrow> JNull | n # _ \<Rightarrow> JStr (node_text libs n)))
           | _ \<Rightarrow> Inr JNull)
      | _ \<Rightarrow> Inl (Error ''Value of \"htmlTagText\" functions must be a string''))"

definition op_htmlTagsText :: "'n libs \<Rightarrow> json \<Rightarrow> json \<Rightarrow> error + json" where
  "op_htmlTagsText libs value options =
     (case options of
        JStr sel \<Rightarrow>
          (case value of
             JStr html \<Rightarrow>
               (case select_html libs sel html of
                  Inl e \<Rightarrow> Inl e
                | Inr result \<Rightarrow> Inr (JArr (map (\<lambda>n. JStr (node_text libs n)) result)))
           | _ \<Rightarrow> Inr (JArr []))
      | _ \<Rightarrow> Inl (Error ''Value of \"htmlTagsText\" functions must be a string''))"

definition op_htmlAttribute :: "'n libs \<Rightarrow> json \<Rightarrow> json \<Rightarrow> error + json" where
  "op_htmlAttribute libs value options =
     (case options of
        JStr name \<Rightarrow>
          (case value of
             JStr html \<Rightarrow>
               (case html_attr libs html name of
                  Inl e \<Rightarrow> Inl e
                | Inr result \<Rightarrow> Inr (if typeof result = ''undefined'' then JNull else result))
           | _ \<Rightarrow> Inr JNull)
      | _ \<Rightarrow> Inl (Error ''Value of \"htmlAttribute\" functions must be a string''))"

text \<open>
  \<^verbatim>\<open>$(cells[i]).text()\<close>: the text of the cell, and the empty string when there is no
  cell at index \<open>i\<close>.
\<close>

definition cell_text :: "'n libs \<Rightarrow> 'n list \<Rightarrow> int \<Rightarrow> string" where
  "cell_text libs cells i =
     (if 0 \<le> i \<and> nat i < length cells then node_text libs (cells ! nat i) else [])"

text \<open>The loop of \<^verbatim>\<open>_htmlTable\<close> over the rows.\<close>

fun table_rows :: "'n libs \<Rightarrow> int \<Rightarrow> string \<Rightarrow> json \<Rightarrow> 'n list \<Rightarrow> error + json" where
  "table_rows libs cell text returnCell [] = Inr JNull"
| "table_rows libs cell text returnCell (row # rows) =
     (case select_node libs ''td'' row of
        Inl e \<Rightarrow> Inl e
      | Inr cells \<Rightarrow>
          if cell \<le> int (length cells)
             \<and> js_toLowerCase (js_trim (cell_text libs cells cell)) = js_toLowerCase (js_trim text)
          then (case returnCell of
                  JNum rc \<Rightarrow>
                    (case select_node libs ''td'' row of
                       Inl e \<Rightarrow> Inl e
                     | Inr cells' \<Rightarrow>
                         Inr (if rc \<le> int (length cells') then JStr (cell_text libs cells' rc)
                              else JNull))
                | _ \<Rightarrow> Inr (JStr (node_html libs row)))
          else table_rows libs cell text returnCell rows)"

definition op_htmlTable :: "'n libs \<Rightarrow> json \<Rightarrow> json \<Rightarrow> error + json" where
  "op_htmlTable libs value options =
     (let bad = Inl (Error ''Value of \"htmlTable\" functions must be an object with cell and text properties'')
      in if typeof options \<noteq> ''object'' then bad
         else case js_get options ''cell'' of
           Inl e \<Rightarrow> Inl e
         | Inr cell \<Rightarrow>
            (case cell of
               JNum c \<Rightarrow>
                 (case js_get options ''text'' of
                    Inl e \<Rightarrow> Inl e
                  | Inr text \<Rightarrow>
                     (case text of
                        JStr t \<Rightarrow>
                          (case value of
                             JStr html \<Rightarrow>
                               (case js_get options ''selector'' of
                                  Inl e \<Rightarrow> Inl e
                                | Inr sel \<Rightarrow>
                                   (case js_get options ''returnCell'' of
                                      Inl e \<Rightarrow> Inl e
                                    | Inr returnCell \<Rightarrow>
                                       (case select_html libs
                                               (case sel of
                                                  JStr x \<Rightarrow> x @ ''>tr '' @ x @ ''>tbody>tr''
                                                | _ \<Rightarrow> ''tr'') html of
                                          Inl e \<Rightarrow> Inl e
                                        | Inr rows \<Rightarrow> table_rows libs c t returnCell rows)))
                           | _ \<Rightarrow> Inr JNull)
                      | _ \<Rightarrow> bad))
             | _ \<Rightarrow> bad))"

subsection \<open>The chain\<close>

text \<open>
  \<^verbatim>\<open>new Transformation({single: s}).transform(value)\<close>, the transformation that the
  operators \<^verbatim>\<open>object\<close>, \<^verbatim>\<open>map\<close> and \<^verbatim>\<open>array\<close> run for a template given
  as a string \<open>s\<close>.
\<close>

definition single_chain :: "'n libs \<Rightarrow> string \<Rightarrow> json \<Rightarrow> error + json" where
  "single_chain libs s value =
     (if is_nullish value then Inr JNull
      else case op_single libs (cloneDeep value) (JStr s) of
             Inl e \<Rightarrow> Inl e
           | Inr out \<Rightarrow> Inr (if is_nullish out then JNull else out))"

text \<open>
  The only object that a transformation writes to is the options object of a \<^verbatim>\<open>hash\<close>
  operator, a part of the template, in which \<^verbatim>\<open>_.defaults\<close> sets the two defaults. A
  run therefore returns, next to its outcome, the places where it did so: each place is the
  path of property names that leads from the template to the options object. The write
  itself, and what it means for a value that shares the object, is the subject of the next
  section.
\<close>

type_synonym 'a run = "path list \<times> (error + 'a)"

definition at_key :: "string \<Rightarrow> path list \<Rightarrow> path list" where
  "at_key k ws = map ((#) k) ws"

text \<open>
  \<open>transform libs template value\<close> is \<^verbatim>\<open>new Transformation(template).transform(value)\<close>
  (lines 130 to 149);
  \<open>run_chain\<close> is its loop over the keys of the template, with the current \<open>output\<close>;
  \<open>apply_op\<close> is the call \<^verbatim>\<open>this['_' + key](output, this._template[key])\<close>;
  \<open>object_loop\<close>, \<open>map_loop\<close> and \<open>array_loop\<close> are the loops of \<^verbatim>\<open>_object\<close>,
  \<^verbatim>\<open>_map\<close> and \<^verbatim>\<open>_array\<close>.

  In \<^verbatim>\<open>_object\<close>, the assignment \<^verbatim>\<open>output[key] = ...\<close> for the key
  \<^verbatim>\<open>__proto__\<close> adds no property: it gives the output another prototype when the
  value is an object, \<^verbatim>\<open>null\<close> or a function, and does nothing otherwise.
\<close>

function transform :: "'n libs \<Rightarrow> json \<Rightarrow> json \<Rightarrow> json run"
  and run_chain :: "'n libs \<Rightarrow> (string \<times> json) list \<Rightarrow> json \<Rightarrow> json run"
  and apply_op :: "'n libs \<Rightarrow> string \<Rightarrow> json \<Rightarrow> json \<Rightarrow> json run"
  and object_loop :: "'n libs \<Rightarrow> json \<Rightarrow> (string \<times> json) list \<Rightarrow> (string \<times> json) list run"
  and map_loop :: "'n libs \<Rightarrow> json \<Rightarrow> json list \<Rightarrow> json list run"
  and array_loop :: "'n libs \<Rightarrow> json \<Rightarrow> nat \<Rightarrow> json list \<Rightarrow> json list run" where
  "transform libs template value =
     (if is_nullish value then ([], Inr JNull)
      else case object_entries template of
             Inl e \<Rightarrow> ([], Inl e)
           | Inr keys \<Rightarrow> run_chain libs keys (cloneDeep value))"
| "run_chain libs [] output = ([], Inr output)"
| "run_chain libs ((key, options) # keys) output =
     (if \<not> is_function key then ([], Inl (Error (''Unknown function '' @ key)))
      else case apply_op libs key output options of
             (ws, Inl e) \<Rightarrow> (at_key key ws, Inl e)
           | (ws, Inr output') \<Rightarrow>
               if is_nullish output' then (at_key key ws, Inr JNull)
               else (case run_chain libs keys output' of
                       (ws', r) \<Rightarrow> (at_key key ws @ ws', r)))"
| "apply_op libs key value options =
     (if key = ''single'' then ([], op_single libs value options)
      else if key = ''multiple'' then ([], op_multiple libs value options)
      else if key = ''static'' then ([], op_static value options)
      else if key = ''object'' then
        (if typeof options \<noteq> ''object''
         then ([], Inl (Error ''Value of \"object\" functions must be an object''))
         else case object_entries options of
                Inl e \<Rightarrow> ([], Inl e)
              | Inr keys \<Rightarrow>
                  (case object_loop libs value keys of
                     (ws, Inl e) \<Rightarrow> (ws, Inl e)
                   | (ws, Inr output) \<Rightarrow> (ws, Inr (JObj output))))
      else if key = ''map'' then
        (case value of
           JArr items \<Rightarrow>
             (case map_loop libs options items of
                (ws, Inl e) \<Rightarrow> (ws, Inl e)
              | (ws, Inr output) \<Rightarrow> (ws, Inr (JArr output)))
         | _ \<Rightarrow> ([], Inr JNull))
      else if key = ''substring'' then ([], op_substring value options)
      else if key = ''length'' then ([], op_length value)
      else if key = ''hash'' then ([[]], op_hash libs value options)
      else if key = ''array'' then
        (case options of
           JArr items \<Rightarrow>
             (case array_loop libs value 0 items of
                (ws, Inl e) \<Rightarrow> (ws, Inl e)
              | (ws, Inr output) \<Rightarrow> (ws, Inr (JArr output)))
         | _ \<Rightarrow> ([], Inl (Error ''Options for array transformation must be an array'')))
      else if key = ''join'' then ([], op_join value options)
      else if key = ''split'' then ([], op_split value options)
      else if key = ''filter'' then ([], op_filter value)
      else if key = ''htmlTag'' then ([], op_htmlTag libs value options)
      else if key = ''htmlTags'' then ([], op_htmlTags libs value options)
      else if key = ''htmlTagText'' then ([], op_htmlTagText libs value options)
      else if key = ''htmlTagsText'' then ([], op_htmlTagsText libs value options)
      else if key = ''htmlAttribute'' then ([], op_htmlAttribute libs value options)
      else if key = ''htmlTable'' then ([], op_htmlTable libs value options)
      else ([], call_inherited libs key value options))"
| "object_loop libs value [] = ([], Inr [])"
| "object_loop libs value ((key, template) # keys) =
     (case (case template of
              JStr s \<Rightarrow> ([], single_chain libs s value)
            | _ \<Rightarrow> transform libs template value) of
        (ws, Inl e) \<Rightarrow> (at_key key ws, Inl e)
      | (ws, Inr r) \<Rightarrow>
          (if key = ''__proto__'' \<and> typeof r \<in> {''object'', ''function''}
           then (at_key key ws, Inl Unmodelled)
           else case object_loop libs value keys of
                  (ws', Inl e) \<Rightarrow> (at_key key ws @ ws', Inl e)
                | (ws', Inr output) \<Rightarrow>
                    (at_key key ws @ ws',
                     Inr (if key = ''__proto__'' then output else (key, r) # output))))"
| "map_loop libs options [] = ([], Inr [])"
| "map_loop libs options (item # items) =
     (case (case options of
              JStr s \<Rightarrow> ([], single_chain libs s item)
            | _ \<Rightarrow> transform libs options item) of
        (ws, Inl e) \<Rightarrow> (ws, Inl e)
      | (ws, Inr r) \<Rightarrow>
          (case map_loop libs options items of
             (ws', Inl e) \<Rightarrow> (ws @ ws', Inl e)
           | (ws', Inr output) \<Rightarrow> (ws @ ws', Inr (r # output))))"
| "array_loop libs value i [] = ([], Inr [])"
| "array_loop libs value i (item # items) =
     (case (case item of
              JStr s \<Rightarrow> ([], single_chain libs s value)
            | _ \<Rightarrow> transform libs item value) of
        (ws, Inl e) \<Rightarrow> (at_key (show_nat i) ws, Inl e)
      | (ws, Inr r) \<Rightarrow>
          (case array_loop libs value (Suc i) items of
             (ws', Inl e) \<Rightarrow> (at_key (show_nat i) ws @ ws', Inl e)
           | (ws', Inr output) \<Rightarrow> (at_key (show_nat i) ws @ ws', Inr (r # output))))"
  by pat_completeness auto

text \<open>The measure of a list of entries, for the termination of the chain.\<close>

definition esize :: "(string \<times> json) list \<Rightarrow> nat" where
  "esize es = size_list (\<lambda>p. size (snd p)) es"

lemma esize_simps [simp]:
  "esize [] = 0"
  "esize ((k, v) # es) = Suc (size v + esize es)"
  by (simp_all add: esize_def)

lemma esize_zip: "esize (zip ks xs) \<le> size_list size xs"
proof (induction xs arbitrary: ks)
  case Nil
  then show ?case by simp
next
  case (Cons x xs)
  then show ?case
  proof (cases ks)
    case Nil
    then show ?thesis by simp
  next
    case (Cons k ks')
    with Cons.IH [of ks'] show ?thesis by simp
  qed
qed

lemma esize_props: "esize es \<le> size_list (size_prod (\<lambda>_. 0) size) es"
  by (induction es) auto

lemma numeral_key_not_function: "\<not> is_function (show_nat 0)"
  by (simp add: is_function_def operators_def inherited_functions_def show_nat.simps digit_char_def)

lemma hd_string_entries:
  "s \<noteq> [] \<Longrightarrow> fst (hd (zip (map show_nat [0..<length s]) (map f s))) = show_nat 0"
  by (cases s) (simp_all add: upt_conv_Cons del: upt_Suc)

lemma esize_entries:
  assumes "object_entries t = Inr es" and "es \<noteq> []" and "is_function (fst (hd es))"
  shows "esize es < size t"
proof (cases t)
  case (JStr s)
  with assms have "s \<noteq> []" by auto
  with assms JStr numeral_key_not_function show ?thesis
    by (auto simp: hd_string_entries)
next
  case (JArr xs)
  with assms esize_zip [of "map show_nat [0..<length xs]" xs] show ?thesis by auto
next
  case (JObj kvs)
  with assms esize_props [of kvs] show ?thesis by auto
qed (use assms in auto)

lemma esize_object_entries:
  assumes "object_entries t = Inr es" and "typeof t = ''object''"
  shows "esize es < size t"
proof (cases t)
  case (JArr xs)
  with assms esize_zip [of "map show_nat [0..<length xs]" xs] show ?thesis by auto
next
  case (JObj kvs)
  with assms esize_props [of kvs] show ?thesis by auto
qed (use assms in auto)

termination transform
  apply (relation "inv_image (less_than <*lex*> less_than)
     (\<lambda>x. case x of
        Inl (Inl (libs, t, v)) \<Rightarrow> (4 * size t + 1, 0)
      | Inl (Inr (Inl (libs, es, out))) \<Rightarrow>
          (if es = [] \<or> \<not> is_function (fst (hd es)) then 0 else 4 * esize es, 0)
      | Inl (Inr (Inr (libs, key, v, opts))) \<Rightarrow> (4 * size opts + 3, 0)
      | Inr (Inl (libs, v, es)) \<Rightarrow> (4 * esize es, 0)
      | Inr (Inr (Inl (libs, opts, items))) \<Rightarrow> (4 * size opts + 2, length items)
      | Inr (Inr (Inr (libs, v, i, items))) \<Rightarrow> (4 * size_list size items, 0))")
    apply simp_all
   apply (auto dest: esize_entries esize_object_entries)
  done

declare apply_op.simps [simp del]

subsection \<open>An operator of the newer dialect\<close>

text \<open>
  Modelled from the spec: the operator \<^verbatim>\<open>count\<close>, whose method \<^verbatim>\<open>_count\<close> is not
  among the sources. The class under \<^verbatim>\<open>src/\<close> is the legacy dialect of the transformer
  (\<^verbatim>\<open>single\<close>, \<^verbatim>\<open>multiple\<close>); \<^verbatim>\<open>count\<close> belongs to the newer one, of which
  only the tests are there (\<^verbatim>\<open>src/test/models/Post.yml\<close>, lines 482 to 501). The
  specification says: \<^verbatim>\<open>count({})\<close> gives the "length of string/array, else 0 (does not
  fail)".
\<close>

definition op_count :: "json \<Rightarrow> json \<Rightarrow> error + json" where
  "op_count value options =
     (case value of
        JStr s \<Rightarrow> Inr (JNum (int (length s)))
      | JArr xs \<Rightarrow> Inr (JNum (int (length xs)))
      | _ \<Rightarrow> Inr (JNum 0))"

subsection \<open>Libraries for closed examples\<close>

text \<open>Libraries for closed examples: they find nothing, and every digest is the same.\<close>

definition test_libs :: "unit libs" where
  "test_libs =
     \<lparr> jsonpath_query = (\<lambda>value q. Inr []),
       select_html = (\<lambda>sel html. Inr []),
       select_node = (\<lambda>sel n. Inr []),
       node_html = (\<lambda>n. []),
       node_text = (\<lambda>n. []),
       html_attr = (\<lambda>html name. Inr JUndef),
       create_hash = (\<lambda>algorithm encoding data. Inr (JStr ''digest'')),
       call_inherited = (\<lambda>key value options. Inl TypeError) \<rparr>"

section \<open>Transformation of objects that are shared\<close>

text \<open>
  In the section above a value is a tree: no object is part of two values, so that what the
  transformer writes into its template shows nowhere else. In the program the template and
  the input are references to objects, and two values can hold the same object. Here the
  objects live in a heap, at addresses, and a value is a primitive value or a reference to
  an object. Two values that hold the same reference share the object.

  The heaps of the model are ordered: a reference that an object holds points to an object
  at a smaller address. Every set of objects without a cycle can be laid out in this way. A
  run that follows a reference to an address that is not smaller ends as \<open>Unmodelled\<close>;
  on a cyclic template the program itself does not return.
\<close>

datatype hval =
    HUndef
  | HNull
  | HBool bool
  | HNum int
  | HStr string
  | HFun string
  | HRef nat

text \<open>
  An object is a plain object, with its properties, or an array, with its elements and the
  named properties that it may have next to them.
\<close>

datatype cell =
    Obj "(string \<times> hval) list"
  | Arr "hval list" "(string \<times> hval) list"

type_synonym heap = "cell list"

text \<open>A value that is no reference, as a value of the sections above, and back.\<close>

fun atom :: "hval \<Rightarrow> json" where
  "atom HUndef = JUndef"
| "atom HNull = JNull"
| "atom (HBool b) = JBool b"
| "atom (HNum n) = JNum n"
| "atom (HStr s) = JStr s"
| "atom (HFun f) = JFun f"
| "atom (HRef a) = JUndef"

fun hval_of :: "json \<Rightarrow> hval" where
  "hval_of JUndef = HUndef"
| "hval_of JNull = HNull"
| "hval_of (JBool b) = HBool b"
| "hval_of (JNum n) = HNum n"
| "hval_of (JStr s) = HStr s"
| "hval_of (JFun f) = HFun f"
| "hval_of (JArr xs) = HUndef"
| "hval_of (JObj kvs) = HUndef"

definition nullish :: "hval \<Rightarrow> bool" where
  "nullish v = (v = HUndef \<or> v = HNull)"

text \<open>\<open>rank\<close> orders the values: a reference above the references to smaller addresses.\<close>

fun rank :: "hval \<Rightarrow> nat" where
  "rank (HRef a) = Suc a"
| "rank v = 0"

text \<open>
  \<open>read h v\<close> is the tree that the value \<open>v\<close> shows in the heap \<open>h\<close>: what
  \<^verbatim>\<open>JSON.stringify\<close>, a deep comparison or a library sees of it. The named properties of
  an array are not part of it.
\<close>

fun read_at :: "nat \<Rightarrow> heap \<Rightarrow> hval \<Rightarrow> json" where
  "read_at n h (HRef a) =
     (if a < n \<and> a < length h
      then (case h ! a of
              Obj ps \<Rightarrow> JObj (map (\<lambda>p. (fst p, read_at a h (snd p))) ps)
            | Arr vs ps \<Rightarrow> JArr (map (read_at a h) vs))
      else JUndef)"
| "read_at n h v = atom v"

definition read :: "heap \<Rightarrow> hval \<Rightarrow> json" where
  "read h v = read_at (length h) h v"

text \<open>
  A new object is put at the end of the heap. \<open>store h j\<close> builds the tree \<open>j\<close> of new
  objects.
\<close>

fun store :: "heap \<Rightarrow> json \<Rightarrow> heap \<times> hval"
  and store_list :: "heap \<Rightarrow> json list \<Rightarrow> heap \<times> hval list"
  and store_props :: "heap \<Rightarrow> (string \<times> json) list \<Rightarrow> heap \<times> (string \<times> hval) list" where
  "store h (JArr xs) = (case store_list h xs of (h', vs) \<Rightarrow> (h' @ [Arr vs []], HRef (length h')))"
| "store h (JObj kvs) = (case store_props h kvs of (h', ps) \<Rightarrow> (h' @ [Obj ps], HRef (length h')))"
| "store h JUndef = (h, HUndef)"
| "store h JNull = (h, HNull)"
| "store h (JBool b) = (h, HBool b)"
| "store h (JNum n) = (h, HNum n)"
| "store h (JStr s) = (h, HStr s)"
| "store h (JFun f) = (h, HFun f)"
| "store_list h [] = (h, [])"
| "store_list h (x # xs) =
     (case store h x of (h1, v) \<Rightarrow> (case store_list h1 xs of (h2, vs) \<Rightarrow> (h2, v # vs)))"
| "store_props h [] = (h, [])"
| "store_props h (p # ps) =
     (case store h (snd p) of
        (h1, v) \<Rightarrow> (case store_props h1 ps of (h2, vs) \<Rightarrow> (h2, (fst p, v) # vs)))"

text \<open>
  \<^verbatim>\<open>_.cloneDeep(v)\<close>: new objects that show the same tree. An object that the value
  holds twice is copied once by the library and twice here: the copies are new objects
  that no template holds, nothing writes into them, and so the difference does not show in
  what is read.
\<close>

definition clone_in :: "heap \<Rightarrow> hval \<Rightarrow> heap \<times> hval" where
  "clone_in h v = store h (cloneDeep (read h v))"

text \<open>The own properties of an object, and \<^verbatim>\<open>v[k]\<close>, \<^verbatim>\<open>Object.keys(v)\<close> and \<^verbatim>\<open>typeof v\<close>.\<close>

fun own_in :: "cell \<Rightarrow> string \<Rightarrow> hval option" where
  "own_in (Obj ps) k = map_of ps k"
| "own_in (Arr vs ps) k =
     (if k = ''length'' then Some (HNum (int (length vs)))
      else case array_index k (length vs) of Some i \<Rightarrow> Some (vs ! i) | None \<Rightarrow> map_of ps k)"

fun shape :: "cell \<Rightarrow> json" where
  "shape (Obj ps) = JObj []"
| "shape (Arr vs ps) = JArr []"

definition get_in :: "heap \<Rightarrow> hval \<Rightarrow> string \<Rightarrow> error + hval" where
  "get_in h v k =
     (case v of
        HRef a \<Rightarrow>
          if a < length h
          then (case own_in (h ! a) k of
                  Some x \<Rightarrow> Inr x
                | None \<Rightarrow>
                    if k = ''__proto__'' then Inl Unmodelled
                    else (case inherited (shape (h ! a)) k of
                            Some f \<Rightarrow> Inr (hval_of f)
                          | None \<Rightarrow> Inr HUndef))
          else Inl Unmodelled
      | _ \<Rightarrow> (case js_get (atom v) k of Inl e \<Rightarrow> Inl e | Inr x \<Rightarrow> Inr (hval_of x)))"

definition keys_in :: "heap \<Rightarrow> hval \<Rightarrow> error + string list" where
  "keys_in h v =
     (case v of
        HRef a \<Rightarrow>
          if a < length h
          then Inr (case h ! a of
                      Obj ps \<Rightarrow> map fst ps
                    | Arr vs ps \<Rightarrow> map show_nat [0..<length vs] @ map fst ps)
          else Inl Unmodelled
      | _ \<Rightarrow> (case object_entries (atom v) of Inl e \<Rightarrow> Inl e | Inr es \<Rightarrow> Inr (map fst es)))"

definition typeof_in :: "hval \<Rightarrow> string" where
  "typeof_in v = (case v of HRef a \<Rightarrow> ''object'' | _ \<Rightarrow> typeof (atom v))"

text \<open>The elements of an array: \<open>None\<close> when the value is no array.\<close>

definition elements_in :: "heap \<Rightarrow> hval \<Rightarrow> hval list option" where
  "elements_in h v =
     (case v of
        HRef a \<Rightarrow> if a < length h then (case h ! a of Arr vs ps \<Rightarrow> Some vs | Obj ps \<Rightarrow> None) else None
      | _ \<Rightarrow> None)"

text \<open>The part of a value at a path, and the parts at a list of paths.\<close>

fun follow_in :: "heap \<Rightarrow> hval \<Rightarrow> path \<Rightarrow> error + hval" where
  "follow_in h v [] = Inr v"
| "follow_in h v (k # p) = (case get_in h v k of Inl e \<Rightarrow> Inl e | Inr x \<Rightarrow> follow_in h x p)"

fun follow_all_in :: "heap \<Rightarrow> hval \<Rightarrow> path list \<Rightarrow> error + hval list" where
  "follow_all_in h v [] = Inr []"
| "follow_all_in h v (p # ps) =
     (case follow_in h v p of
        Inl e \<Rightarrow> Inl e
      | Inr x \<Rightarrow> (case follow_all_in h v ps of Inl e \<Rightarrow> Inl e | Inr xs \<Rightarrow> Inr (x # xs)))"

subsection \<open>The operators\<close>

text \<open>
  An operator that reads its arguments and returns a primitive value or new objects is the
  operator of the section above, on the trees that the arguments show: \<open>fresh h r\<close> builds
  its result.
\<close>

definition fresh :: "heap \<Rightarrow> error + json \<Rightarrow> heap \<times> (error + hval)" where
  "fresh h r = (case r of Inl e \<Rightarrow> (h, Inl e) | Inr j \<Rightarrow> (case store h j of (h', v) \<Rightarrow> (h', Inr v)))"

text \<open>
  \<^verbatim>\<open>_single\<close> returns a part of the value, and \<^verbatim>\<open>_multiple\<close> a new array of parts of
  it; \<^verbatim>\<open>_filter\<close> returns a new array of the elements that are true.
\<close>

definition single_in :: "'n libs \<Rightarrow> heap \<Rightarrow> hval \<Rightarrow> hval \<Rightarrow> error + hval" where
  "single_in libs h value options =
     (case options of
        HStr q \<Rightarrow>
          (case simple_property q of
             Some name \<Rightarrow>
               (case get_in h value name of
                  Inl e \<Rightarrow> Inl e
                | Inr r \<Rightarrow> Inr (if typeof_in r = ''undefined'' then HNull else r))
           | None \<Rightarrow>
               (case jsonpath_query libs (read h value) q of
                  Inl e \<Rightarrow> Inl e
                | Inr result \<Rightarrow> (case result of [] \<Rightarrow> Inr HNull | p # _ \<Rightarrow> follow_in h value p)))
      | _ \<Rightarrow> Inl (Error ''Value of \"single\" function must be a string''))"

definition multiple_in :: "'n libs \<Rightarrow> heap \<Rightarrow> hval \<Rightarrow> hval \<Rightarrow> heap \<times> (error + hval)" where
  "multiple_in libs h value options =
     (case options of
        HStr q \<Rightarrow>
          (case jsonpath_query libs (read h value) q of
             Inl e \<Rightarrow> (h, Inl e)
           | Inr result \<Rightarrow>
               (case follow_all_in h value result of
                  Inl e \<Rightarrow> (h, Inl e)
                | Inr parts \<Rightarrow> (h @ [Arr parts []], Inr (HRef (length h)))))
      | _ \<Rightarrow> (h, Inl (Error ''Value of \"multiple\" functions must be a string'')))"

definition truthy_in :: "hval \<Rightarrow> bool" where
  "truthy_in v = (case v of HRef a \<Rightarrow> True | _ \<Rightarrow> truthy (atom v))"

definition filter_in :: "heap \<Rightarrow> hval \<Rightarrow> heap \<times> (error + hval)" where
  "filter_in h value =
     (case elements_in h value of
        Some vs \<Rightarrow> (h @ [Arr (filter truthy_in vs) []], Inr (HRef (length h)))
      | None \<Rightarrow> (h, Inl (Error ''Value for filter transformation must be an array'')))"

text \<open>
  \<^verbatim>\<open>_.defaults(options, {encoding: 'hex', algorithm: 'md5'})\<close> writes into the object
  that \<^verbatim>\<open>options\<close> refers to: each of the two properties that is missing or
  \<^verbatim>\<open>undefined\<close> is set. This is the one place where the class writes into an object that
  it did not make itself.
\<close>

fun put :: "string \<Rightarrow> hval \<Rightarrow> (string \<times> hval) list \<Rightarrow> (string \<times> hval) list" where
  "put k d [] = [(k, d)]"
| "put k d (p # ps) = (if fst p = k then (k, d) # ps else p # put k d ps)"

definition set_default_in :: "string \<Rightarrow> hval \<Rightarrow> (string \<times> hval) list \<Rightarrow> (string \<times> hval) list" where
  "set_default_in k d ps =
     (case map_of ps k of
        None \<Rightarrow> put k d ps
      | Some v \<Rightarrow> if v = HUndef then put k d ps else ps)"

definition defaults_in :: "(string \<times> hval) list \<Rightarrow> (string \<times> hval) list" where
  "defaults_in ps =
     set_default_in ''algorithm'' (HStr ''md5'') (set_default_in ''encoding'' (HStr ''hex'') ps)"

fun with_defaults :: "cell \<Rightarrow> cell" where
  "with_defaults (Obj ps) = Obj (defaults_in ps)"
| "with_defaults (Arr vs ps) = Arr vs (defaults_in ps)"

text \<open>
  \<^verbatim>\<open>_hash\<close>: the value is converted to text first, then the defaults are written, then the
  algorithm and the encoding are read from the options. Options that are no object receive
  no property: the defaults are read from a wrapper that nothing else sees.
\<close>

definition hash_in :: "'n libs \<Rightarrow> heap \<Rightarrow> hval \<Rightarrow> hval \<Rightarrow> heap \<times> (error + hval)" where
  "hash_in libs h value options =
     (if has_toJSON (read h value) \<or> typeof_in options = ''function'' then (h, Inl Unmodelled)
      else
        (let data = (case value of
                       HStr s \<Rightarrow> JStr s
                     | _ \<Rightarrow> (case stringify (read h value) of None \<Rightarrow> JUndef | Some s \<Rightarrow> JStr s))
         in case options of
              HRef a \<Rightarrow>
                if a < length h
                then (let h' = h[a := with_defaults (h ! a)]
                      in case get_in h' options ''algorithm'' of
                           Inl e \<Rightarrow> (h', Inl e)
                         | Inr algorithm \<Rightarrow>
                             (case get_in h' options ''encoding'' of
                                Inl e \<Rightarrow> (h', Inl e)
                              | Inr encoding \<Rightarrow>
                                  fresh h' (create_hash libs (read h' algorithm) (read h' encoding) data)))
                else (h, Inl Unmodelled)
            | _ \<Rightarrow> fresh h (create_hash libs (JStr ''md5'') (JStr ''hex'') data)))"

subsection \<open>The chain\<close>

text \<open>
  \<^verbatim>\<open>new Transformation({single: s}).transform(value)\<close>, as above.
\<close>

definition single_chain_in :: "'n libs \<Rightarrow> heap \<Rightarrow> string \<Rightarrow> hval \<Rightarrow> heap \<times> (error + hval)" where
  "single_chain_in libs h s value =
     (if nullish value then (h, Inr HNull)
      else case clone_in h value of
             (h1, output) \<Rightarrow>
               (case single_in libs h1 output (HStr s) of
                  Inl e \<Rightarrow> (h1, Inl e)
                | Inr out \<Rightarrow> (h1, Inr (if nullish out then HNull else out))))"

text \<open>
  The functions of the section above, with the heap. The template is read from the heap
  when the code reads it: its keys once, before the loop, and the options of a key when the
  operator of the key is called. An operator that runs a nested transformation descends
  into the template: from an object to an object that it holds, at a smaller address, and
  the model follows no other descent. The object that \<^verbatim>\<open>_object\<close>, \<^verbatim>\<open>_map\<close> or
  \<^verbatim>\<open>_array\<close> returns is put into the heap when it is complete; until then only the
  operator itself can see it.
\<close>

function transform_in :: "'n libs \<Rightarrow> heap \<Rightarrow> hval \<Rightarrow> hval \<Rightarrow> heap \<times> (error + hval)"
  and run_chain_in :: "'n libs \<Rightarrow> heap \<Rightarrow> hval \<Rightarrow> string list \<Rightarrow> hval \<Rightarrow> heap \<times> (error + hval)"
  and apply_op_in :: "'n libs \<Rightarrow> heap \<Rightarrow> string \<Rightarrow> hval \<Rightarrow> hval \<Rightarrow> heap \<times> (error + hval)"
  and object_loop_in ::
    "'n libs \<Rightarrow> heap \<Rightarrow> hval \<Rightarrow> hval \<Rightarrow> string list \<Rightarrow> heap \<times> (error + (string \<times> hval) list)"
  and map_loop_in :: "'n libs \<Rightarrow> heap \<Rightarrow> hval \<Rightarrow> hval list \<Rightarrow> heap \<times> (error + hval list)"
  and array_loop_in ::
    "'n libs \<Rightarrow> heap \<Rightarrow> hval \<Rightarrow> hval \<Rightarrow> hval list \<Rightarrow> heap \<times> (error + hval list)" where
  "transform_in libs h template value =
     (if nullish value then (h, Inr HNull)
      else case clone_in h value of
             (h1, output) \<Rightarrow>
               (case keys_in h1 template of
                  Inl e \<Rightarrow> (h1, Inl e)
                | Inr keys \<Rightarrow> run_chain_in libs h1 template keys output))"
| "run_chain_in libs h template [] output = (h, Inr output)"
| "run_chain_in libs h template (key # keys) output =
     (if \<not> is_function key then (h, Inl (Error (''Unknown function '' @ key)))
      else case get_in h template key of
             Inl e \<Rightarrow> (h, Inl e)
           | Inr options \<Rightarrow>
               if \<not> rank options < rank template then (h, Inl Unmodelled)
               else (case apply_op_in libs h key output options of
                       (h', Inl e) \<Rightarrow> (h', Inl e)
                     | (h', Inr output') \<Rightarrow>
                         if nullish output' then (h', Inr HNull)
                         else run_chain_in libs h' template keys output'))"
| "apply_op_in libs h key value options =
     (if key = ''single'' then (h, single_in libs h value options)
      else if key = ''multiple'' then multiple_in libs h value options
      else if key = ''static'' then (h, Inr options)
      else if key = ''object'' then
        (if typeof_in options \<noteq> ''object''
         then (h, Inl (Error ''Value of \"object\" functions must be an object''))
         else case keys_in h options of
                Inl e \<Rightarrow> (h, Inl e)
              | Inr keys \<Rightarrow>
                  (case object_loop_in libs h value options keys of
                     (h', Inl e) \<Rightarrow> (h', Inl e)
                   | (h', Inr output) \<Rightarrow> (h' @ [Obj output], Inr (HRef (length h')))))
      else if key = ''map'' then
        (case elements_in h value of
           Some items \<Rightarrow>
             (case map_loop_in libs h options items of
                (h', Inl e) \<Rightarrow> (h', Inl e)
              | (h', Inr output) \<Rightarrow> (h' @ [Arr output []], Inr (HRef (length h'))))
         | None \<Rightarrow> (h, Inr HNull))
      else if key = ''substring'' then fresh h (op_substring (read h value) (read h options))
      else if key = ''length'' then fresh h (op_length (read h value))
      else if key = ''hash'' then hash_in libs h value options
      else if key = ''array'' then
        (case elements_in h options of
           Some items \<Rightarrow>
             (case array_loop_in libs h value options items of
                (h', Inl e) \<Rightarrow> (h', Inl e)
              | (h', Inr output) \<Rightarrow> (h' @ [Arr output []], Inr (HRef (length h'))))
         | None \<Rightarrow> (h, Inl (Error ''Options for array transformation must be an array'')))
      else if key = ''join'' then fresh h (op_join (read h value) (read h options))
      else if key = ''split'' then fresh h (op_split (read h value) (read h options))
      else if key = ''filter'' then filter_in h value
      else if key = ''htmlTag'' then fresh h (op_htmlTag libs (read h value) (read h options))
      else if key = ''htmlTags'' then fresh h (op_htmlTags libs (read h value) (read h options))
      else if key = ''htmlTagText'' then fresh h (op_htmlTagText libs (read h value) (read h options))
      else if key = ''htmlTagsText'' then fresh h (op_htmlTagsText libs (read h value) (read h options))
      else if key = ''htmlAttribute'' then fresh h (op_htmlAttribute libs (read h value) (read h options))
      else if key = ''htmlTable'' then fresh h (op_htmlTable libs (read h value) (read h options))
      else fresh h (call_inherited libs key (read h value) (read h options)))"
| "object_loop_in libs h value options [] = (h, Inr [])"
| "object_loop_in libs h value options (key # keys) =
     (case get_in h options key of
        Inl e \<Rightarrow> (h, Inl e)
      | Inr template \<Rightarrow>
          if \<not> rank template < rank options then (h, Inl Unmodelled)
          else (case (case template of
                        HStr s \<Rightarrow> single_chain_in libs h s value
                      | _ \<Rightarrow> transform_in libs h template value) of
                  (h1, Inl e) \<Rightarrow> (h1, Inl e)
                | (h1, Inr r) \<Rightarrow>
                    if key = ''__proto__'' \<and> typeof_in r \<in> {''object'', ''function''}
                    then (h1, Inl Unmodelled)
                    else (case object_loop_in libs h1 value options keys of
                            (h2, Inl e) \<Rightarrow> (h2, Inl e)
                          | (h2, Inr output) \<Rightarrow>
                              (h2, Inr (if key = ''__proto__'' then output else (key, r) # output)))))"
| "map_loop_in libs h options [] = (h, Inr [])"
| "map_loop_in libs h options (item # items) =
     (case (case options of
              HStr s \<Rightarrow> single_chain_in libs h s item
            | _ \<Rightarrow> transform_in libs h options item) of
        (h1, Inl e) \<Rightarrow> (h1, Inl e)
      | (h1, Inr r) \<Rightarrow>
          (case map_loop_in libs h1 options items of
             (h2, Inl e) \<Rightarrow> (h2, Inl e)
           | (h2, Inr output) \<Rightarrow> (h2, Inr (r # output))))"
| "array_loop_in libs h value options [] = (h, Inr [])"
| "array_loop_in libs h value options (item # items) =
     (if \<not> rank item < rank options then (h, Inl Unmodelled)
      else case (case item of
                   HStr s \<Rightarrow> single_chain_in libs h s value
                 | _ \<Rightarrow> transform_in libs h item value) of
             (h1, Inl e) \<Rightarrow> (h1, Inl e)
           | (h1, Inr r) \<Rightarrow>
               (case array_loop_in libs h1 value options items of
                  (h2, Inl e) \<Rightarrow> (h2, Inl e)
                | (h2, Inr output) \<Rightarrow> (h2, Inr (r # output))))"
  by pat_completeness auto

termination transform_in
  apply (relation "inv_image (less_than <*lex*> less_than <*lex*> less_than)
     (\<lambda>x. case x of
        Inl (Inl (libs, h, t, v)) \<Rightarrow> (rank t, 1, 0)
      | Inl (Inr (Inl (libs, h, t, keys, out))) \<Rightarrow> (rank t, 0, length keys)
      | Inl (Inr (Inr (libs, h, key, v, opts))) \<Rightarrow> (rank opts, 3, 0)
      | Inr (Inl (libs, h, v, opts, keys)) \<Rightarrow> (rank opts, 2, length keys)
      | Inr (Inr (Inl (libs, h, opts, items))) \<Rightarrow> (rank opts, 2, length items)
      | Inr (Inr (Inr (libs, h, v, opts, items))) \<Rightarrow> (rank opts, 2, length items))")
    apply (intro wf_inv_image wf_lex_prod wf_less_than)
    apply simp_all
  done


subsection \<open>The objects that a run can write to\<close>

text \<open>
  The objects that are part of a value: the object that the value refers to, and the parts
  of the values that it holds.
\<close>

fun refs :: "hval list \<Rightarrow> nat list" where
  "refs [] = []"
| "refs (HRef a # vs) = a # refs vs"
| "refs (v # vs) = refs vs"

fun children :: "cell \<Rightarrow> nat list" where
  "children (Obj ps) = refs (map snd ps)"
| "children (Arr vs ps) = refs (vs @ map snd ps)"

fun parts_at :: "nat \<Rightarrow> heap \<Rightarrow> nat \<Rightarrow> nat list" where
  "parts_at n h a =
     (if a < n \<and> a < length h then a # concat (map (parts_at a h) (children (h ! a))) else [])"

declare parts_at.simps [simp del]

definition parts :: "heap \<Rightarrow> hval \<Rightarrow> nat list" where
  "parts h v = (case v of HRef a \<Rightarrow> parts_at (length h) h a | _ \<Rightarrow> [])"

text \<open>
  The options of the \<^verbatim>\<open>hash\<close> operators in a template: the objects that a part of the
  template holds as its property \<^verbatim>\<open>hash\<close>.
\<close>

fun hash_of :: "cell \<Rightarrow> hval option" where
  "hash_of (Obj ps) = map_of ps ''hash''"
| "hash_of (Arr vs ps) = map_of ps ''hash''"

definition hash_options :: "heap \<Rightarrow> hval \<Rightarrow> nat list" where
  "hash_options h t =
     concat (map (\<lambda>b. case hash_of (h ! b) of Some (HRef a) \<Rightarrow> [a] | _ \<Rightarrow> []) (parts h t))"

text \<open>
  \<open>kept h h' S\<close>: the heap \<open>h'\<close> has every object of \<open>h\<close>, unchanged, but for
  objects of \<open>S\<close> that have received the defaults of \<^verbatim>\<open>_hash\<close>.
\<close>

definition kept :: "heap \<Rightarrow> heap \<Rightarrow> nat set \<Rightarrow> bool" where
  "kept h h' S =
     (length h \<le> length h' \<and>
      (\<forall>a<length h. h' ! a = h ! a \<or> (a \<in> S \<and> h' ! a = with_defaults (h ! a))))"

subsection \<open>Ordered heaps\<close>

text \<open>
  In an ordered heap every reference that an object holds points to a smaller address.
  \<open>good\<close> says of the outcome of a run that the heap is ordered and that the result, when
  there is one, lies in it; \<open>good_list\<close> and \<open>good_props\<close> say the same of the outcome of
  a loop.
\<close>

definition ordered :: "heap \<Rightarrow> bool" where
  "ordered h = (\<forall>a<length h. \<forall>b \<in> set (children (h ! a)). b < a)"

definition good :: "heap \<times> (error + hval) \<Rightarrow> bool" where
  "good R = (ordered (fst R) \<and> (\<forall>x. snd R = Inr x \<longrightarrow> rank x \<le> length (fst R)))"

definition good_list :: "heap \<times> (error + hval list) \<Rightarrow> bool" where
  "good_list R = (ordered (fst R) \<and> (\<forall>xs. snd R = Inr xs \<longrightarrow> (\<forall>x \<in> set xs. rank x \<le> length (fst R))))"

definition good_props :: "heap \<times> (error + (string \<times> hval) list) \<Rightarrow> bool" where
  "good_props R =
     (ordered (fst R) \<and> (\<forall>ps. snd R = Inr ps \<longrightarrow> (\<forall>p \<in> set ps. rank (snd p) \<le> length (fst R))))"

text \<open>
  The transformation of a template and an input that are given as trees and share nothing:
  both are built in an empty heap, and the result is read from the heap at the end.
\<close>

definition transform_tree :: "'n libs \<Rightarrow> json \<Rightarrow> json \<Rightarrow> error + json" where
  "transform_tree libs template value =
     (case store [] template of
        (h, t) \<Rightarrow>
          (case store h value of
             (h1, v) \<Rightarrow>
               (case transform_in libs h1 t v of
                  (h2, Inl e) \<Rightarrow> Inl e
                | (h2, Inr r) \<Rightarrow> Inr (read h2 r))))"

section \<open>Query\<close>

subsection \<open>Argument injection\<close>

text \<open>
  \<^verbatim>\<open>injectArguments\<close> (lines 32 to 41) calls
  \<^verbatim>\<open>query = query.replace('?', JSON.stringify(value))\<close> for each argument in turn.
\<close>

text \<open>
  \<open>find_first pat front s\<close> looks for the first occurrence of \<open>pat\<close> in \<open>s\<close>, and gives
  what stands before it (after \<open>front\<close>, the part already passed) and what stands after it.
\<close>

fun find_first :: "string \<Rightarrow> string \<Rightarrow> string \<Rightarrow> (string \<times> string) option" where
  "find_first pat front [] = (if pat = [] then Some (front, []) else None)"
| "find_first pat front (c # cs) =
     (if take (length pat) (c # cs) = pat then Some (front, drop (length pat) (c # cs))
      else find_first pat (front @ [c]) cs)"

text \<open>
  The replacement text of \<^verbatim>\<open>String.prototype.replace\<close> for a string pattern: in the
  replacement, \<^verbatim>\<open>$$\<close> stands for a dollar, \<^verbatim>\<open>$&\<close> for the matched text, a dollar
  with a backquote for the text before the match and a dollar with a quote for the text
  after it; every other dollar stands for itself (a string pattern has no groups).
\<close>

fun expand_dollars :: "string \<Rightarrow> string \<Rightarrow> string \<Rightarrow> string \<Rightarrow> string" where
  "expand_dollars matched front back [] = []"
| "expand_dollars matched front back [c] = [c]"
| "expand_dollars matched front back (c # d # r) =
     (if c = CHR ''$'' \<and> d = CHR ''$'' then CHR ''$'' # expand_dollars matched front back r
      else if c = CHR ''$'' \<and> d = CHR ''&'' then matched @ expand_dollars matched front back r
      else if c = CHR ''$'' \<and> d = CHR 0x60 then front @ expand_dollars matched front back r
      else if c = CHR ''$'' \<and> d = CHR 0x27 then back @ expand_dollars matched front back r
      else c # expand_dollars matched front back (d # r))"

text \<open>\<^verbatim>\<open>s.replace(pat, replacement)\<close> for a string \<open>pat\<close>: the first occurrence only.\<close>

definition js_replace :: "string \<Rightarrow> string \<Rightarrow> string \<Rightarrow> string" where
  "js_replace s pat replacement =
     (case find_first pat [] s of
        None \<Rightarrow> s
      | Some (front, back) \<Rightarrow> front @ expand_dollars pat front back replacement @ back)"

text \<open>
  The text that \<^verbatim>\<open>replace\<close> receives for an argument: \<^verbatim>\<open>JSON.stringify(value)\<close>,
  and \<^verbatim>\<open>undefined\<close>, printed, when that is not a string.
\<close>

definition encode_argument :: "json \<Rightarrow> string" where
  "encode_argument v = (case stringify v of None \<Rightarrow> ''undefined'' | Some s \<Rightarrow> s)"

definition injectArguments :: "string \<Rightarrow> json \<Rightarrow> string" where
  "injectArguments query args =
     (case args of
        JArr values \<Rightarrow> fold (\<lambda>v q. js_replace q ''?'' (encode_argument v)) values query
      | _ \<Rightarrow> query)"

text \<open>
  Positional binding as the specification words it: the i-th question mark of the query
  is replaced by the i-th encoded argument.
\<close>

fun bind_positional :: "string \<Rightarrow> string list \<Rightarrow> string" where
  "bind_positional [] encoded = []"
| "bind_positional (c # cs) [] = c # cs"
| "bind_positional (c # cs) (e # es) =
     (if c = CHR ''?'' then e @ bind_positional cs es
      else c # bind_positional cs (e # es))"

subsection \<open>The constructor\<close>

text \<open>
  A query is given as a string or as an already parsed object. The parser is a module that
  is not among the sources: it is a parameter, which gives the parsed query or throws an
  error with a message. The second argument of the constructor is a context, an array of
  arguments, or \<^verbatim>\<open>undefined\<close>.
\<close>

datatype 'p query_source = Source string | Parsed 'p

datatype 'c context_arg = ArgsGiven "json list" | ContextGiven 'c | NoContext

record ('c, 'p) query =
  query_text :: "'p query_source"
  query_context :: "'c context_arg"
  parsed :: 'p

text \<open>
  When the second argument is an array and there is no third, the array is the arguments
  and there is no context. The arguments are injected first, and the parser sees the text
  that results; what it throws is wrapped into a query error. A query that is no string has
  no \<^verbatim>\<open>replace\<close>, so injecting a first argument into it throws a TypeError.
\<close>

definition new_query ::
  "(string \<Rightarrow> string + 'p) \<Rightarrow> 'p query_source \<Rightarrow> 'c context_arg \<Rightarrow> json
     \<Rightarrow> error + ('c, 'p) query" where
  "new_query parser q context_arg args_arg =
     (let swap = (case context_arg of ArgsGiven a \<Rightarrow> typeof args_arg = ''undefined'' | _ \<Rightarrow> False);
          args = (case context_arg of ArgsGiven a \<Rightarrow> if swap then JArr a else args_arg | _ \<Rightarrow> args_arg);
          ctx = (if swap then NoContext else context_arg)
      in case q of
           Source text \<Rightarrow>
             (let text' = injectArguments text args
              in case parser text' of
                   Inl message \<Rightarrow> Inl (QueryError [(None, message)])
                 | Inr p \<Rightarrow> Inr \<lparr> query_text = Source text', query_context = ctx, parsed = p \<rparr>)
         | Parsed p \<Rightarrow>
             (case args of
                JArr (v # vs) \<Rightarrow> Inl TypeError
              | _ \<Rightarrow> Inr \<lparr> query_text = Parsed p, query_context = ctx, parsed = p \<rparr>))"

subsection \<open>Calling a method\<close>

record method_call =
  name :: string
  params :: "(string \<times> json) list"
  fieldNames :: "string list"

text \<open>
  The context and the models are objects of classes that are not among the sources; the
  methods that \<^verbatim>\<open>callMethod\<close> calls are parameters. \<open>access\<close> gives the value that the
  promise of \<^verbatim>\<open>context.access(model, operation, data, null)\<close> resolves to, or the error it
  rejects with. \<open>model_function m f\<close> is the property \<open>f\<close> of the model \<open>m\<close> when it is a
  function.
\<close>

record 'm context_methods =
  getUser :: json
  access :: "'m \<Rightarrow> string \<Rightarrow> json \<Rightarrow> json \<Rightarrow> error + json"

record 'm models =
  models_has :: "string \<Rightarrow> error + bool"
  models_get :: "string \<Rightarrow> error + 'm"
  model_function :: "'m \<Rightarrow> string \<Rightarrow> ((string \<times> json) list \<Rightarrow> string list \<Rightarrow> error + json) option"

definition is_lower :: "char \<Rightarrow> bool" where
  "is_lower c = (97 \<le> (of_char c :: nat) \<and> (of_char c :: nat) \<le> 122)"

definition is_upper :: "char \<Rightarrow> bool" where
  "is_upper c = (65 \<le> (of_char c :: nat) \<and> (of_char c :: nat) \<le> 90)"

text \<open>
  The match of \<^verbatim>\<open>/^([a-z]+)?([A-Z][\w]*)$/\<close>: the lower-case prefix (empty when the
  first group does not take part) and the entity name.
\<close>

definition method_parts :: "string \<Rightarrow> (string \<times> string) option" where
  "method_parts n =
     (case dropWhile is_lower n of
        [] \<Rightarrow> None
      | c # cs \<Rightarrow>
          if is_upper c \<and> list_all is_word_char cs then Some (takeWhile is_lower n, c # cs)
          else None)"

definition operation_of :: "string \<Rightarrow> string" where
  "operation_of lower =
     (let operation = (if lower \<noteq> [] then lower else ''read'')
      in if operation = ''delete'' then ''remove'' else operation)"

text \<open>\<^verbatim>\<open>_.capitalize\<close> on a word of lower-case letters.\<close>

definition capitalize :: "string \<Rightarrow> string" where
  "capitalize w =
     (case w of [] \<Rightarrow> [] | c # cs \<Rightarrow> (if is_lower c then char_of ((of_char c :: nat) - 32) else c) # cs)"

text \<open>
  The data that the access check receives: the identifier alone, \<^verbatim>\<open>null\<close> when the
  parameters have none, and a copy of all parameters for \<^verbatim>\<open>list\<close> and \<^verbatim>\<open>create\<close>.
\<close>

definition access_data :: "string \<Rightarrow> (string \<times> json) list \<Rightarrow> json" where
  "access_data operation ps =
     (let ident = (case map_of ps ''id'' of
                     None \<Rightarrow> JNull
                   | Some v \<Rightarrow> if typeof v = ''undefined'' then JNull else v)
      in if operation = ''list'' \<or> operation = ''create'' then cloneDeep (JObj ps)
         else JObj [(''id'', ident)])"

text \<open>
  What \<^verbatim>\<open>callMethod\<close> (lines 43 to 103) gives, next to the method, whose parameters it
  may have changed: \<^verbatim>\<open>undefined\<close> at once when the name does not match, a
  promise of \<^verbatim>\<open>undefined\<close> when there is no such model, and else a promise of the model
  and the data.
\<close>

datatype 'm called = NoMatch | NoModel | Called 'm json

text \<open>
  \<^verbatim>\<open>readUser\<close> without parameters, with a context: the identifier of the user of the
  context becomes the parameter \<^verbatim>\<open>id\<close>, in the method itself.
\<close>

definition bind_user ::
  "'m context_methods option \<Rightarrow> string \<Rightarrow> string \<Rightarrow> method_call \<Rightarrow> error + method_call" where
  "bind_user ctx operation entity m =
     (case ctx of
        Some c \<Rightarrow>
          if operation = ''read'' \<and> entity = ''User'' \<and> params m = []
          then (case js_get (getUser c) ''id'' of
                  Inl e \<Rightarrow> Inl e
                | Inr uid \<Rightarrow> Inr (if truthy uid then m \<lparr> params := [(''id'', uid)] \<rparr> else m))
          else Inr m
      | None \<Rightarrow> Inr m)"

text \<open>
  What follows a successful access check: the model must have the function of the operation
  and the function that executes it, which then receives the parameters and the field names.
\<close>

definition execute_operation ::
  "'m models \<Rightarrow> 'm \<Rightarrow> string \<Rightarrow> method_call \<Rightarrow> error + 'm called" where
  "execute_operation models model operation m =
     (case (model_function models model operation,
            model_function models model (''execute'' @ capitalize operation)) of
        (Some f, Some execute) \<Rightarrow>
          (case execute (params m) (fieldNames m) of
             Inl e \<Rightarrow> Inl e
           | Inr data \<Rightarrow> Inr (Called model data))
      | _ \<Rightarrow> Inl (Error (''Operation '' @ operation @ '' is not supported by model'')))"

definition callMethod ::
  "'m models \<Rightarrow> 'm context_methods option \<Rightarrow> method_call \<Rightarrow> method_call \<times> (error + 'm called)" where
  "callMethod models ctx m =
     (case method_parts (name m) of
        None \<Rightarrow> (m, Inr NoMatch)
      | Some (lower, entity) \<Rightarrow>
          (let operation = operation_of lower
           in case bind_user ctx operation entity m of
                Inl e \<Rightarrow> (m, Inl e)
              | Inr m' \<Rightarrow>
                 (m',
                  case models_has models entity of
                    Inl e \<Rightarrow> Inl e
                  | Inr exists \<Rightarrow>
                     if \<not> exists then Inr NoModel
                     else case models_get models entity of
                       Inl e \<Rightarrow> Inl e
                     | Inr model \<Rightarrow>
                        (case (case ctx of
                                 Some c \<Rightarrow> access c model operation
                                             (access_data operation (params m')) JNull
                               | None \<Rightarrow> Inr (JBool True)) of
                           Inl e \<Rightarrow> Inl e
                         | Inr allowed \<Rightarrow>
                            if \<not> truthy allowed
                            then Inl (QueryError [(None, ''permission denied'')])
                            else execute_operation models model operation m'))))"

section \<open>Authentication\<close>

subsection \<open>Base64\<close>

text \<open>
  \<^verbatim>\<open>buffer.toString('base64')\<close>: the standard alphabet, three bytes to four characters,
  padded with \<^verbatim>\<open>=\<close>.
\<close>

definition base64_alphabet :: string where
  "base64_alphabet = ''ABCDEFGHIJKLMNOPQRSTUVWXYZabcdefghijklmnopqrstuvwxyz0123456789+/''"

definition base64url_alphabet :: string where
  "base64url_alphabet = ''ABCDEFGHIJKLMNOPQRSTUVWXYZabcdefghijklmnopqrstuvwxyz0123456789-_''"

definition sextet_char :: "nat \<Rightarrow> char" where
  "sextet_char n = base64_alphabet ! (n mod 64)"

fun base64_encode :: "8 word list \<Rightarrow> string" where
  "base64_encode [] = []"
| "base64_encode [a] =
     [sextet_char (unat a div 4), sextet_char (unat a mod 4 * 16), CHR ''='', CHR ''='']"
| "base64_encode [a, b] =
     [sextet_char (unat a div 4), sextet_char (unat a mod 4 * 16 + unat b div 16),
      sextet_char (unat b mod 16 * 4), CHR ''='']"
| "base64_encode (a # b # c # rest) =
     [sextet_char (unat a div 4), sextet_char (unat a mod 4 * 16 + unat b div 16),
      sextet_char (unat b mod 16 * 4 + unat c div 64), sextet_char (unat c mod 64)]
     @ base64_encode rest"

text \<open>
  \<^verbatim>\<open>new Buffer(text, 'base64').toString()\<close>, for closed examples. Decoding skips the
  characters outside the alphabet and ends at the first \<^verbatim>\<open>=\<close>; it gives bytes,
  which \<^verbatim>\<open>toString\<close> reads as UTF-8. The result is \<open>None\<close> when the bytes spell
  no string of Latin-1: a byte below 128 is a character, and the bytes 194 and 195 start the
  two bytes of a character from 128 to 255.
\<close>

definition sextet_of :: "char \<Rightarrow> nat option" where
  "sextet_of c = (case find (\<lambda>i. base64_alphabet ! i = c \<or> base64url_alphabet ! i = c) [0..<64] of
                    Some i \<Rightarrow> Some i | None \<Rightarrow> None)"

fun bytes_of_sextets :: "nat list \<Rightarrow> nat list" where
  "bytes_of_sextets (a # b # c # d # rest) =
     [a * 4 + b div 16, b mod 16 * 16 + c div 4, c mod 4 * 64 + d] @ bytes_of_sextets rest"
| "bytes_of_sextets [a, b, c] = [a * 4 + b div 16, b mod 16 * 16 + c div 4]"
| "bytes_of_sextets [a, b] = [a * 4 + b div 16]"
| "bytes_of_sextets xs = []"

fun utf8_latin1 :: "nat list \<Rightarrow> string option" where
  "utf8_latin1 [] = Some []"
| "utf8_latin1 [b] = (if b < 128 then Some [char_of b] else None)"
| "utf8_latin1 (b # c # bs) =
     (if b < 128 then map_option ((#) (char_of b)) (utf8_latin1 (c # bs))
      else if (b = 194 \<or> b = 195) \<and> 128 \<le> c \<and> c < 192
      then map_option ((#) (char_of ((b - 192) * 64 + (c - 128)))) (utf8_latin1 bs)
      else None)"

definition base64_decode :: "string \<Rightarrow> string option" where
  "base64_decode text =
     utf8_latin1 (bytes_of_sextets
       (List.map_filter sextet_of (takeWhile (\<lambda>c. c \<noteq> CHR ''='') text)))"

text \<open>
  \<^verbatim>\<open>Crypto.randomBytes(n)\<close> gives \<open>n\<close> bytes from the random source of the system. The
  source is the sequence of the bytes that it gives.
\<close>

definition randomBytes :: "nat \<Rightarrow> (nat \<Rightarrow> 8 word) \<Rightarrow> 8 word list" where
  "randomBytes n source = map source [0..<n]"

subsection \<open>The handlers\<close>

text \<open>
  The request parameter \<^verbatim>\<open>context\<close>: \<^verbatim>\<open>undefined\<close> for the administrator, or a
  context object, which holds the user once \<^verbatim>\<open>setUser\<close> was called. The Context class is
  not among the sources; the specification describes it as holding zero or one user.
\<close>

datatype request_context = Undefined | Context "json option"

definition setUser :: "request_context \<Rightarrow> json \<Rightarrow> error + request_context" where
  "setUser c u = (case c of Undefined \<Rightarrow> Inl TypeError | Context old \<Rightarrow> Inr (Context (Some u)))"

text \<open>
  The options of the constructor, after \<^verbatim>\<open>_.defaults\<close>; \<open>admins\<close> is the admin table, an
  object from user names to hashed passwords.
\<close>

record auth_options =
  userFields :: "string list"
  userModel :: string
  usernameField :: string
  passwordField :: string
  admins :: json

text \<open>
  What the handlers call outside the class: the decoding of the credentials
  (\<^verbatim>\<open>new Buffer(text, 'base64').toString()\<close>), \<^verbatim>\<open>Password.isValid(hash, password)\<close> of
  a class that is not among the sources, and \<^verbatim>\<open>storage.query(query, args)\<close>, which acts
  on a storage of type \<open>'s\<close> and gives the value its promise resolves to, or the error.
\<close>

record 's auth_env =
  decode_base64 :: "string \<Rightarrow> string"
  isValid :: "json \<Rightarrow> json \<Rightarrow> error + bool"
  storage_query :: "'s \<Rightarrow> string \<Rightarrow> json list \<Rightarrow> 's \<times> (error + json)"

text \<open>
  The match of \<^verbatim>\<open>/^Basic (.+)$/\<close> and \<^verbatim>\<open>/^Bearer (.+)$/\<close>: the text after the scheme,
  which is not empty and has no line terminator.
\<close>

definition match_scheme :: "string \<Rightarrow> string \<Rightarrow> string option" where
  "match_scheme scheme header =
     (let rest = drop (length scheme) header
      in if take (length scheme) header = scheme \<and> rest \<noteq> []
            \<and> CHR 0x0A \<notin> set rest \<and> CHR 0x0D \<notin> set rest
         then Some rest else None)"

text \<open>
  The Basic branch: the context after it. The credentials are split at every colon; the
  user name is the first part (there always is one) and the password the second
  (\<^verbatim>\<open>undefined\<close> when there is none). The test before the call of \<^verbatim>\<open>isValid\<close>
  compares the entry of the table with the string \<^verbatim>\<open>'undefined'\<close>.
\<close>

definition basic_auth ::
  "'s auth_env \<Rightarrow> auth_options \<Rightarrow> string \<Rightarrow> request_context \<Rightarrow> error + request_context" where
  "basic_auth env options header ctx =
     (case match_scheme ''Basic '' header of
        None \<Rightarrow> Inr ctx
      | Some encoded \<Rightarrow>
          (let parts = js_split (decode_base64 env encoded) '':'';
               username = (case parts of [] \<Rightarrow> ''undefined'' | u # ps \<Rightarrow> u);
               password = (case parts of u # p # ps \<Rightarrow> JStr p | _ \<Rightarrow> JUndef)
           in case js_get (admins options) username of
                Inl e \<Rightarrow> Inl e
              | Inr entry \<Rightarrow>
                  if entry \<noteq> JStr ''undefined''
                  then (case isValid env entry password of
                          Inl e \<Rightarrow> Inl e
                        | Inr valid \<Rightarrow> Inr (if valid then Undefined else ctx))
                  else Inr ctx))"

definition bearer_query :: "auth_options \<Rightarrow> string" where
  "bearer_query options =
     ''{token:listAuthnToken(token:?){user{'' @ join_strings '' '' (userFields options) @ ''}}}''"

text \<open>The Bearer branch: the storage and the context after it.\<close>

definition bearer_auth ::
  "'s auth_env \<Rightarrow> auth_options \<Rightarrow> 's \<Rightarrow> string \<Rightarrow> request_context
     \<Rightarrow> 's \<times> (error + request_context)" where
  "bearer_auth env options st header ctx =
     (case match_scheme ''Bearer '' header of
        None \<Rightarrow> (st, Inr ctx)
      | Some token \<Rightarrow>
          (case storage_query env st (bearer_query options) [JStr token] of
             (st', Inl e) \<Rightarrow> (st', Inl e)
           | (st', Inr result) \<Rightarrow>
               (st',
                case js_get result ''token'' of
                  Inl e \<Rightarrow> Inl e
                | Inr rows \<Rightarrow>
                    (case js_get rows ''length'' of
                       Inl e \<Rightarrow> Inl e
                     | Inr n \<Rightarrow>
                         if n = JNum 0 then Inl (Error ''Invalid access token'')
                         else (case js_get rows ''0'' of
                                 Inl e \<Rightarrow> Inl e
                               | Inr row \<Rightarrow>
                                   (case js_get row ''user'' of
                                      Inl e \<Rightarrow> Inl e
                                    | Inr u \<Rightarrow> setUser ctx u))))))"

text \<open>
  The authentication handler (lines 42 to 76): from the value of the \<^verbatim>\<open>authorization\<close>
  header to the request parameter \<^verbatim>\<open>context\<close>, or the error that the handler throws or
  rejects with.
\<close>

definition authenticate ::
  "'s auth_env \<Rightarrow> auth_options \<Rightarrow> 's \<Rightarrow> json \<Rightarrow> 's \<times> (error + request_context)" where
  "authenticate env options st authorization =
     (let authnHeader = (case authorization of JStr h \<Rightarrow> h | _ \<Rightarrow> [])
      in case basic_auth env options authnHeader (Context None) of
           Inl e \<Rightarrow> (st, Inl e)
         | Inr ctx \<Rightarrow> bearer_auth env options st authnHeader ctx)"

definition user_query :: "auth_options \<Rightarrow> string" where
  "user_query options =
     ''{'' @ [CHR 0x0A] @ ''          user: list'' @ userModel options @ '' (''
       @ usernameField options @ '': ?) {'' @ [CHR 0x0A]
       @ ''            id'' @ [CHR 0x0A]
       @ ''            password: '' @ passwordField options @ [CHR 0x0A]
       @ ''          }'' @ [CHR 0x0A] @ ''        }''"

definition create_token_query :: string where
  "create_token_query = ''{createAuthnToken(token:?,user:?){id}}''"

text \<open>
  The response of \<^verbatim>\<open>POST /token\<close>: \<open>None\<close> when the handler returns nothing (a grant
  type other than \<^verbatim>\<open>password\<close>), and else the status and the body.
\<close>

definition token_response :: "string option \<Rightarrow> (nat \<times> json) option" where
  "token_response token =
     (case token of
        Some t \<Rightarrow> Some (200, JObj [(''access_token'', JStr t), (''token_type'', JStr ''bearer'')])
      | None \<Rightarrow> Some (401, JObj []))"

text \<open>
  The handler of \<^verbatim>\<open>POST /token\<close> (lines 83 to 113), with the random source of the
  system.
\<close>

definition token_process ::
  "'s auth_env \<Rightarrow> auth_options \<Rightarrow> (nat \<Rightarrow> 8 word) \<Rightarrow> 's \<Rightarrow> json
     \<Rightarrow> 's \<times> (error + (nat \<times> json) option)" where
  "token_process env options source st body =
     (case js_get body ''grant_type'' of
        Inl e \<Rightarrow> (st, Inl e)
      | Inr grant_type \<Rightarrow>
         if grant_type \<noteq> JStr ''password'' then (st, Inr None)
         else case js_get body ''username'' of
           Inl e \<Rightarrow> (st, Inl e)
         | Inr username \<Rightarrow>
            (case storage_query env st (user_query options) [username] of
               (st1, Inl e) \<Rightarrow> (st1, Inl e)
             | (st1, Inr result) \<Rightarrow>
                (case js_get result ''user'' of
                   Inl e \<Rightarrow> (st1, Inl e)
                 | Inr rows \<Rightarrow>
                    (case js_get rows ''length'' of
                       Inl e \<Rightarrow> (st1, Inl e)
                     | Inr n \<Rightarrow>
                       (case greater_than_zero n of
                          Inl e \<Rightarrow> (st1, Inl e)
                        | Inr some \<Rightarrow>
                        if \<not> some then (st1, Inr (token_response None))
                        else case js_get rows ''0'' of
                          Inl e \<Rightarrow> (st1, Inl e)
                        | Inr row \<Rightarrow>
                           (case js_get row ''password'' of
                              Inl e \<Rightarrow> (st1, Inl e)
                            | Inr hash \<Rightarrow>
                               (case js_get body ''password'' of
                                  Inl e \<Rightarrow> (st1, Inl e)
                                | Inr password \<Rightarrow>
                                   (case isValid env hash password of
                                      Inl e \<Rightarrow> (st1, Inl e)
                                    | Inr valid \<Rightarrow>
                                       if \<not> valid then (st1, Inr (token_response None))
                                       else (let token = base64_encode (randomBytes 32 source)
                                             in case js_get row ''id'' of
                                                  Inl e \<Rightarrow> (st1, Inl e)
                                                | Inr uid \<Rightarrow>
                                                   (case storage_query env st1 create_token_query
                                                           [JStr token, uid] of
                                                      (st2, Inl e) \<Rightarrow> (st2, Inl e)
                                                    | (st2, Inr created) \<Rightarrow>
                                                       (st2, Inr (token_response
                                                          (if token \<noteq> [] then Some token
                                                           else None)))))))))))))"

subsection \<open>The verifier of passwords\<close>


subsection \<open>Models, a context and an environment for closed examples\<close>

text \<open>
  One model, \<^verbatim>\<open>Post\<close>, which supports every operation, and a context whose access
  check refuses \<^verbatim>\<open>list\<close> when it is given the parameters \<^verbatim>\<open>{title: 'x'}\<close>, refuses
  \<^verbatim>\<open>remove\<close> when it is given \<^verbatim>\<open>{id: null}\<close>, and allows everything else.
\<close>

definition test_models :: "unit models" where
  "test_models =
     \<lparr> models_has = (\<lambda>entity. Inr (entity = ''Post'')),
       models_get = (\<lambda>entity. Inr ()),
       model_function = (\<lambda>model f. Some (\<lambda>ps fields. Inr (JObj ps))) \<rparr>"

definition test_context :: "unit context_methods" where
  "test_context =
     \<lparr> getUser = JObj [(''id'', JStr ''u1'')],
       access = (\<lambda>model operation data field.
         Inr (JBool (\<not> (operation = ''list'' \<and> data = JObj [(''title'', JStr ''x'')]
                        \<or> operation = ''remove'' \<and> data = JObj [(''id'', JNull)])))) \<rparr>"

text \<open>
  An environment for closed examples. The storage is the list of the queries made so far.
  It knows one user, \<^verbatim>\<open>u1\<close>, whose stored hash is \<^verbatim>\<open>hash-of-Welcome!\<close>, and no
  token. The verifier accepts a hash only for the password it was made from. The decoder
  gives the empty string for what is no string of Latin-1.
\<close>

definition test_env :: "(string \<times> json list) list auth_env" where
  "test_env =
     \<lparr> decode_base64 = (\<lambda>text. case base64_decode text of Some s \<Rightarrow> s | None \<Rightarrow> []),
       isValid = (\<lambda>hash password.
          Inr (case password of JStr p \<Rightarrow> hash = JStr (''hash-of-'' @ p) | _ \<Rightarrow> False)),
       storage_query = (\<lambda>st q args.
          (st @ [(q, args)],
           Inr (JObj [(''user'', JArr [JObj [(''id'', JStr ''u1''),
                                           (''password'', JStr ''hash-of-Welcome!'')]]),
                      (''token'', JArr [])]))) \<rparr>"

definition test_options :: auth_options where
  "test_options =
     \<lparr> userFields = [''id''], userModel = ''User'', usernameField = ''username'',
       passwordField = ''password'', admins = JObj [(''admin'', JStr ''hash-of-secret'')] \<rparr>"

definition test_body :: json where
  "test_body = JObj [(''grant_type'', JStr ''password''), (''username'', JStr ''alice@example.com''),
                     (''password'', JStr ''Welcome!'')]"

section \<open>Properties of the transformation chain\<close>

lemma clone_part_id [simp]: "clone_part v = v"
  by (induction v rule: clone_part.induct) (auto intro: map_idI)

lemma cloneDeep_value: "typeof v \<noteq> ''function'' \<Longrightarrow> cloneDeep v = v"
  by (cases v) (simp_all add: cloneDeep_def)

lemma transform_object:
  "transform libs (JObj keys) value =
     (if is_nullish value then ([], Inr JNull) else run_chain libs keys (cloneDeep value))"
  by simp

text \<open>
  A chain whose first part ran to the end, with an output that is neither \<^verbatim>\<open>null\<close>
  nor \<^verbatim>\<open>undefined\<close>, goes on with the rest from that output.
\<close>

lemma run_chain_append:
  assumes "run_chain libs before out = (ws, Inr out')" and "\<not> is_nullish out'"
  shows "run_chain libs (before @ after) out =
           (case run_chain libs after out' of (ws', r) \<Rightarrow> (ws @ ws', r))"
  using assms
proof (induction before arbitrary: out ws)
  case Nil
  then show ?case by (auto split: prod.splits)
next
  case (Cons k before)
  obtain key options where k: "k = (key, options)" by (cases k)
  show ?case
  proof (cases "apply_op libs key out options")
    case (Pair ws1 r1)
    with Cons.prems k obtain out1 where r1: "r1 = Inr out1" and fn: "is_function key"
      by (cases r1) (auto split: if_splits)
    from Cons.prems k Pair r1 fn have nn: "\<not> is_nullish out1"
      by (auto split: if_splits)
    obtain ws2 r2 where rest: "run_chain libs before out1 = (ws2, r2)"
      by (cases "run_chain libs before out1")
    with Cons.prems k Pair r1 fn nn have "r2 = Inr out'" and ws: "ws = at_key key ws1 @ ws2"
      by auto
    with rest Cons.IH [of out1 ws2] Cons.prems(2)
    have "run_chain libs (before @ after) out1 =
            (case run_chain libs after out' of (ws', r) \<Rightarrow> (ws2 @ ws', r))"
      by simp
    with k Pair r1 fn nn ws show ?thesis
      by (auto split: prod.splits)
  qed
qed

lemma transform_append:
  assumes "transform libs (JObj before) value = (ws, Inr out)" and "\<not> is_nullish out"
  shows "transform libs (JObj (before @ after)) value =
           (case run_chain libs after out of (ws', r) \<Rightarrow> (ws @ ws', r))"
proof -
  from assms have "\<not> is_nullish value"
    by (auto simp: transform_object split: if_splits)
  with assms show ?thesis
    by (simp add: transform_object run_chain_append del: transform.simps)
qed

lemma run_chain_unknown:
  "\<not> is_function key \<Longrightarrow>
   run_chain libs ((key, options) # after) out = ([], Inl (Error (''Unknown function '' @ key)))"
  by simp

subsection \<open>Splitting a string\<close>

lemma split_scan_not_Nil: "split_scan sep cur s \<noteq> []"
  by (induction sep cur s rule: split_scan.induct) auto

lemma join_strings_Cons: "xs \<noteq> [] \<Longrightarrow> join_strings sep (x # xs) = x @ sep @ join_strings sep xs"
  by (cases xs) simp_all

lemma join_split_scan: "sep \<noteq> [] \<Longrightarrow> join_strings sep (split_scan sep cur s) = cur @ s"
proof (induction sep cur s rule: split_scan.induct)
  case (1 sep cur)
  then show ?case by simp
next
  case (2 sep cur c cs)
  show ?case
  proof (cases "take (length sep) (c # cs) = sep")
    case True
    then have "c # cs = sep @ drop (length sep) (c # cs)"
      by (metis append_take_drop_id)
    with 2 True show ?thesis
      by (simp add: join_strings_Cons split_scan_not_Nil del: take_Suc_Cons drop_Suc_Cons)
  next
    case False
    with 2 show ?thesis by simp
  qed
qed

lemma sublist_snoc_cases:
  assumes "sublist xs (ys @ [y])"
  shows "sublist xs ys \<or> suffix xs (ys @ [y])"
  using assms by (auto simp: sublist_snoc)

lemma no_sep_step:
  assumes sep: "sep \<noteq> []"
    and inv: "\<not> sublist sep (cur @ take (length sep - 1) (c # cs))"
    and nomatch: "take (length sep) (c # cs) \<noteq> sep"
  shows "\<not> sublist sep ((cur @ [c]) @ take (length sep - 1) cs)"
proof
  assume sub: "sublist sep ((cur @ [c]) @ take (length sep - 1) cs)"
  let ?n = "length sep"
  from sep have n: "?n = Suc (?n - 1)" by (cases sep) auto
  have eq: "(cur @ [c]) @ take (?n - 1) cs = cur @ take ?n (c # cs)"
    by (subst (2) n) simp
  show False
  proof (cases "?n \<le> length (c # cs)")
    case False
    then have "take ?n (c # cs) = take (?n - 1) (c # cs)" by simp
    with sub eq inv show False by simp
  next
    case True
    then have len: "length (take ?n (c # cs)) = ?n" by simp
    then have "take ?n (c # cs) \<noteq> []" using sep by auto
    then have sn: "take ?n (c # cs) = butlast (take ?n (c # cs)) @ [last (take ?n (c # cs))]"
      by simp
    have bl: "butlast (take ?n (c # cs)) = take (?n - 1) (c # cs)"
      using True by (simp add: butlast_take)
    from sub eq have "sublist sep ((cur @ take (?n - 1) (c # cs)) @ [last (take ?n (c # cs))])"
      using sn bl by (metis append.assoc)
    then have "sublist sep (cur @ take (?n - 1) (c # cs)) \<or>
               suffix sep ((cur @ take (?n - 1) (c # cs)) @ [last (take ?n (c # cs))])"
      by (rule sublist_snoc_cases)
    with inv have "suffix sep (cur @ take ?n (c # cs))"
      using sn bl by (metis append.assoc)
    then obtain zs where "cur @ take ?n (c # cs) = zs @ sep" by (auto simp: suffix_def)
    with len have "take ?n (c # cs) = sep"
      by (metis append_eq_append_conv)
    with nomatch show False by simp
  qed
qed

lemma split_scan_no_sep:
  "sep \<noteq> [] \<Longrightarrow> \<not> sublist sep (cur @ take (length sep - 1) s) \<Longrightarrow>
   p \<in> set (split_scan sep cur s) \<Longrightarrow> \<not> sublist sep p"
proof (induction sep cur s rule: split_scan.induct)
  case (1 sep cur)
  then show ?case by simp
next
  case (2 sep cur c cs)
  show ?case
  proof (cases "take (length sep) (c # cs) = sep")
    case True
    have short: "\<not> sublist sep ([] @ take (length sep - 1) (drop (length sep) (c # cs)))"
    proof
      assume "sublist sep ([] @ take (length sep - 1) (drop (length sep) (c # cs)))"
      then have "length sep \<le> length (take (length sep - 1) (drop (length sep) (c # cs)))"
        using sublist_length_le by fastforce
      with \<open>sep \<noteq> []\<close> show False by (cases sep) auto
    qed
    from 2 True have "p = cur \<or> p \<in> set (split_scan sep [] (drop (length sep) (c # cs)))"
      by (simp del: take_Suc_Cons drop_Suc_Cons)
    then show ?thesis
    proof
      assume "p = cur"
      with "2.prems"(2) show ?thesis
        by (metis sublist_append)
    next
      assume "p \<in> set (split_scan sep [] (drop (length sep) (c # cs)))"
      with "2.IH"(1) [OF _ \<open>sep \<noteq> []\<close> short] True \<open>sep \<noteq> []\<close> show ?thesis by simp
    qed
  next
    case False
    with 2 have mem: "p \<in> set (split_scan sep (cur @ [c]) cs)" by simp
    from no_sep_step [OF \<open>sep \<noteq> []\<close> "2.prems"(2) False]
    have "\<not> sublist sep ((cur @ [c]) @ take (length sep - 1) cs)" .
    with "2.IH"(2) False \<open>sep \<noteq> []\<close> mem show ?thesis by simp
  qed
qed

section \<open>Properties of the transformation of shared objects\<close>

lemma kept_refl [simp]: "kept h h S"
  by (simp add: kept_def)

lemma kept_prefix: "prefix h h' \<Longrightarrow> kept h h' S"
  by (auto simp: kept_def prefix_def nth_append)

lemma kept_mono: "kept h h' S \<Longrightarrow> S \<subseteq> T \<Longrightarrow> kept h h' T"
  by (auto simp: kept_def)

lemma kept_append: "kept h h' S \<Longrightarrow> kept h (h' @ ext) S"
  by (auto simp: kept_def nth_append)

lemma map_of_put_same: "map_of (put k d ps) k = Some d"
  by (induction ps) auto

lemma map_of_put_other: "k' \<noteq> k \<Longrightarrow> map_of (put k d ps) k' = map_of ps k'"
  by (induction ps) auto

lemma map_of_set_default_in_other:
  "k' \<noteq> k \<Longrightarrow> map_of (set_default_in k d ps) k' = map_of ps k'"
  by (simp add: set_default_in_def map_of_put_other split: option.splits)

lemma map_of_set_default_in_same:
  assumes "d \<noteq> HUndef"
  shows "\<exists>v. map_of (set_default_in k d ps) k = Some v \<and> v \<noteq> HUndef"
  using assms by (cases "map_of ps k") (simp_all add: set_default_in_def map_of_put_same)

lemma set_default_in_present:
  "map_of ps k = Some v \<Longrightarrow> v \<noteq> HUndef \<Longrightarrow> set_default_in k d ps = ps"
  by (simp add: set_default_in_def)

lemma defaults_in_idem: "defaults_in (defaults_in ps) = defaults_in ps"
proof -
  let ?e = "set_default_in ''encoding'' (HStr ''hex'') ps"
  let ?a = "set_default_in ''algorithm'' (HStr ''md5'') ?e"
  obtain v where "map_of ?e ''encoding'' = Some v" "v \<noteq> HUndef"
    using map_of_set_default_in_same [of "HStr ''hex''" "''encoding''" ps] by auto
  then have "map_of ?a ''encoding'' = Some v" "v \<noteq> HUndef"
    by (simp_all add: map_of_set_default_in_other)
  then have 1: "set_default_in ''encoding'' (HStr ''hex'') ?a = ?a"
    by (rule set_default_in_present)
  obtain w where "map_of ?a ''algorithm'' = Some w" "w \<noteq> HUndef"
    using map_of_set_default_in_same [of "HStr ''md5''" "''algorithm''" ?e] by auto
  then have 2: "set_default_in ''algorithm'' (HStr ''md5'') ?a = ?a"
    by (rule set_default_in_present)
  from 1 2 show ?thesis by (simp add: defaults_in_def)
qed

lemma with_defaults_idem [simp]: "with_defaults (with_defaults c) = with_defaults c"
  by (cases c) (simp_all add: defaults_in_idem)

lemma kept_trans:
  assumes "kept h h1 S" and "kept h1 h2 T" and "\<And>a. a < length h \<Longrightarrow> a \<in> T \<Longrightarrow> a \<in> S"
  shows "kept h h2 S"
  unfolding kept_def
proof (intro conjI allI impI)
  from assms(1,2) show "length h \<le> length h2" by (simp add: kept_def)
  fix a
  assume a: "a < length h"
  with assms(1) have a1: "a < length h1" by (simp add: kept_def)
  from assms(1) a have 1: "h1 ! a = h ! a \<or> (a \<in> S \<and> h1 ! a = with_defaults (h ! a))"
    by (simp add: kept_def)
  from assms(2) a1 have 2: "h2 ! a = h1 ! a \<or> (a \<in> T \<and> h2 ! a = with_defaults (h1 ! a))"
    by (simp add: kept_def)
  from 1 2 assms(3) [OF a] show "h2 ! a = h ! a \<or> (a \<in> S \<and> h2 ! a = with_defaults (h ! a))"
    by auto
qed

text \<open>The defaults change neither the references that an object holds nor its property \<^verbatim>\<open>hash\<close>.\<close>

lemma refs_append: "refs (xs @ ys) = refs xs @ refs ys"
  by (induction xs rule: refs.induct) simp_all

lemma refs_put:
  assumes "rank d = 0" and "map_of ps k = None \<or> map_of ps k = Some HUndef"
  shows "refs (map snd (put k d ps)) = refs (map snd ps)"
  using assms
proof (induction ps)
  case Nil
  then show ?case by (cases d) simp_all
next
  case (Cons p ps)
  obtain k' v where p: "p = (k', v)" by (cases p)
  show ?case
  proof (cases "k' = k")
    case True
    with Cons.prems p have "v = HUndef" by simp
    with True p Cons.prems(1) show ?thesis by (cases d) simp_all
  next
    case False
    with Cons p have "refs (map snd (put k d ps)) = refs (map snd ps)" by simp
    with False p show ?thesis by (cases v) simp_all
  qed
qed

lemma refs_set_default_in:
  "rank d = 0 \<Longrightarrow> refs (map snd (set_default_in k d ps)) = refs (map snd ps)"
  by (cases "map_of ps k") (simp_all add: set_default_in_def refs_put)

lemma children_with_defaults [simp]: "children (with_defaults c) = children c"
  by (cases c) (simp_all add: defaults_in_def refs_set_default_in refs_append)

lemma hash_of_with_defaults [simp]: "hash_of (with_defaults c) = hash_of c"
  by (cases c) (simp_all add: defaults_in_def map_of_set_default_in_other)

text \<open>The parts of a value, and the options in it, are the same in a heap that keeps the objects.\<close>

lemma parts_at_kept:
  assumes "kept h h' S"
  shows "a < length h \<Longrightarrow> a < n \<Longrightarrow> a < n' \<Longrightarrow> parts_at n' h' a = parts_at n h a"
proof (induction a arbitrary: n n' rule: less_induct)
  case (less a)
  from assms less.prems(1) have len: "a < length h'" and cell: "children (h' ! a) = children (h ! a)"
    by (auto simp: kept_def)
  have "parts_at a h' b = parts_at a h b" for b
  proof (cases "b < a")
    case True
    with less.IH [of b a a] less.prems(1) show ?thesis by simp
  next
    case False
    then show ?thesis by (simp add: parts_at.simps)
  qed
  then have "parts_at a h' = parts_at a h" by (rule ext)
  with len cell less.prems show ?case
    by (simp add: parts_at.simps [of n' h' a] parts_at.simps [of n h a])
qed

lemma parts_kept:
  assumes "kept h h' S" and "rank t \<le> length h"
  shows "parts h' t = parts h t"
proof (cases t)
  case (HRef a)
  with assms have "a < length h" "a < length h'" by (auto simp: kept_def)
  with assms(1) HRef show ?thesis by (simp add: parts_def parts_at_kept)
qed (simp_all add: parts_def)

lemma parts_at_bound: "b \<in> set (parts_at n h a) \<Longrightarrow> b < length h \<and> b \<le> a"
proof (induction a arbitrary: n b rule: less_induct)
  case (less a)
  show ?case
  proof (cases "a < n \<and> a < length h")
    case False
    with less.prems show ?thesis by (simp add: parts_at.simps)
  next
    case True
    with less.prems have "b = a \<or> (\<exists>c \<in> set (children (h ! a)). b \<in> set (parts_at a h c))"
      by (auto simp: parts_at.simps [of n h a])
    then show ?thesis
    proof
      assume "b = a"
      with True show ?thesis by simp
    next
      assume "\<exists>c \<in> set (children (h ! a)). b \<in> set (parts_at a h c)"
      then obtain c where c: "b \<in> set (parts_at a h c)" by auto
      then have "c < a" by (auto simp: parts_at.simps [of a h c] split: if_splits)
      with less.IH [of c b a] c show ?thesis by auto
    qed
  qed
qed

lemma hash_options_kept:
  assumes "kept h h' S" and "rank t \<le> length h"
  shows "hash_options h' t = hash_options h t"
proof -
  have "hash_of (h' ! b) = hash_of (h ! b)" if "b \<in> set (parts h t)" for b
  proof -
    from that have "b < length h"
      by (cases t) (auto simp: parts_def dest: parts_at_bound)
    with assms(1) show ?thesis by (auto simp: kept_def)
  qed
  with parts_kept [OF assms] show ?thesis
    by (simp add: hash_options_def cong: map_cong)
qed


text \<open>Building new objects keeps the heap.\<close>

lemma store_prefix:
  "prefix h (fst (store h j))"
  "prefix h (fst (store_list h js))"
  "prefix h (fst (store_props h kvs))"
proof (induction h j and h js and h kvs rule: store_store_list_store_props.induct)
  case (1 h xs)
  then show ?case by (auto split: prod.splits intro: prefix_order.trans)
next
  case (2 h kvs)
  then show ?case by (auto split: prod.splits intro: prefix_order.trans)
next
  case (10 h x xs)
  then show ?case by (auto split: prod.splits intro: prefix_order.trans)
next
  case (12 h p ps)
  then show ?case by (auto split: prod.splits intro: prefix_order.trans)
qed simp_all

lemma fresh_prefix: "prefix h (fst (fresh h r))"
proof (cases r)
  case (Inr j)
  with store_prefix(1) [of h j] show ?thesis
    by (auto simp: fresh_def split: prod.splits)
qed (simp add: fresh_def)

lemma clone_in_prefix: "prefix h (fst (clone_in h v))"
  by (simp add: clone_in_def store_prefix)

lemma multiple_in_prefix: "prefix h (fst (multiple_in libs h v opts))"
  by (auto simp: multiple_in_def split: hval.splits sum.splits)

lemma filter_in_prefix: "prefix h (fst (filter_in h v))"
  by (auto simp: filter_in_def split: option.splits)

lemma single_chain_in_prefix: "prefix h (fst (single_chain_in libs h s v))"
  using clone_in_prefix [of h v]
  by (auto simp: single_chain_in_def split: prod.splits sum.splits)

lemma hash_in_kept: "kept h (fst (hash_in libs h v opts)) (set (refs [opts]))"
proof (cases opts)
  case (HRef a)
  show ?thesis
  proof (cases "a < length h")
    case True
    let ?h = "h[a := with_defaults (h ! a)]"
    have 1: "kept h ?h {a}"
      using True by (auto simp: kept_def nth_list_update)
    have "kept h (fst (fresh ?h r)) {a}" for r
      using fresh_prefix [of ?h r] 1 by (auto simp: prefix_def intro: kept_append)
    with 1 True HRef show ?thesis
      by (auto simp: hash_in_def Let_def split: sum.splits)
  next
    case False
    with HRef show ?thesis by (simp add: hash_in_def Let_def)
  qed
qed (use fresh_prefix in \<open>auto simp: hash_in_def Let_def intro: kept_prefix\<close>)

text \<open>An object that is held is a part, and its options are options of the holder.\<close>

lemma set_refs: "set (refs vs) = {a. HRef a \<in> set vs}"
  by (induction vs rule: refs.induct) auto

lemma array_index_less: "array_index k n = Some i \<Longrightarrow> i < n"
  by (auto simp: array_index_def find_Some_iff)

lemma own_in_child: "own_in c k = Some (HRef a) \<Longrightarrow> a \<in> set (children c)"
proof (cases c)
  case (Obj ps)
  assume "own_in c k = Some (HRef a)"
  with Obj have "(k, HRef a) \<in> set ps" by (auto dest: map_of_SomeD)
  then have "HRef a \<in> set (map snd ps)" by force
  with Obj show ?thesis by (simp add: set_refs)
next
  case (Arr vs ps)
  assume own: "own_in c k = Some (HRef a)"
  have "HRef a \<in> set vs \<or> (k, HRef a) \<in> set ps"
  proof (cases "array_index k (length vs)")
    case None
    with own Arr show ?thesis by (auto split: if_splits dest: map_of_SomeD)
  next
    case (Some i)
    then have "i < length vs" by (rule array_index_less)
    then have "vs ! i \<in> set vs" by simp
    with own Arr Some show ?thesis by (auto split: if_splits)
  qed
  then have "HRef a \<in> set vs \<or> HRef a \<in> set (map snd ps)" by force
  with Arr show ?thesis by (auto simp: set_refs)
qed

lemma get_in_ref:
  assumes "get_in h v k = Inr (HRef a)"
  shows "\<exists>b. v = HRef b \<and> b < length h \<and> own_in (h ! b) k = Some (HRef a)"
proof (cases v)
  case (HRef b)
  with assms show ?thesis
    by (auto simp: get_in_def inherited_def split: if_splits option.splits)
qed (use assms in \<open>auto simp: get_in_def inherited_def split: sum.splits option.splits if_splits\<close>)

lemma child_parts:
  assumes "b < length h" and "c \<in> set (children (h ! b))" and "c < b"
  shows "set (parts h (HRef c)) \<subseteq> set (parts h (HRef b))"
proof -
  from assms have "parts_at (length h) h c = parts_at b h c"
    using parts_at_kept [of h h "{}" c b "length h"] by simp
  with assms show ?thesis
    by (auto simp: parts_def parts_at.simps [of "length h" h b])
qed

lemma hash_options_mono:
  "set (parts h v) \<subseteq> set (parts h w) \<Longrightarrow> set (hash_options h v) \<subseteq> set (hash_options h w)"
  by (auto simp: hash_options_def)

lemma member_hash_options:
  assumes "get_in h opts k = Inr m" and "rank m < rank opts"
  shows "set (hash_options h m) \<subseteq> set (hash_options h opts)"
proof (cases m)
  case (HRef c)
  with assms(1) obtain b where b: "opts = HRef b" "b < length h" "own_in (h ! b) k = Some (HRef c)"
    using get_in_ref by blast
  with assms(2) HRef have "c < b" by simp
  with b HRef child_parts [of b h c] own_in_child [of "h ! b" k c] show ?thesis
    by (auto intro!: hash_options_mono)
qed (simp_all add: hash_options_def parts_def)

lemma element_hash_options:
  assumes "elements_in h opts = Some items" and "item \<in> set items" and "rank item < rank opts"
  shows "set (hash_options h item) \<subseteq> set (hash_options h opts)"
proof (cases item)
  case (HRef c)
  from assms(1) obtain b vs ps where b: "opts = HRef b" "b < length h" "h ! b = Arr vs ps" "items = vs"
    by (auto simp: elements_in_def split: hval.splits if_splits cell.splits)
  with assms(2,3) HRef have "c < b" "c \<in> set (children (h ! b))" by (auto simp: set_refs)
  with b HRef child_parts [of b h c] show ?thesis
    by (auto intro!: hash_options_mono)
qed (simp_all add: hash_options_def parts_def)

lemma show_nat_digits: "set (show_nat n) \<subseteq> set ''0123456789''"
proof (induction n rule: show_nat.induct)
  case (1 n)
  have d: "digit_char m \<in> set ''0123456789''" for m
    unfolding digit_char_def by (rule nth_mem) simp
  show ?case
  proof (cases "n < 10")
    case True
    with d [of n] show ?thesis by (subst show_nat.simps) simp
  next
    case False
    with 1 d [of "n mod 10"] show ?thesis by (subst show_nat.simps) simp
  qed
qed

lemma array_index_hash: "array_index ''hash'' n = None"
proof -
  have "show_nat i \<noteq> ''hash''" for i
    using show_nat_digits [of i] by auto
  then show ?thesis by (simp add: array_index_def find_None_iff)
qed

lemma own_in_hash: "own_in c ''hash'' = hash_of c"
  by (cases c) (simp_all add: array_index_hash)

lemma hash_target:
  assumes "get_in h t ''hash'' = Inr options"
  shows "set (refs [options]) \<subseteq> set (hash_options h t)"
proof (cases options)
  case (HRef a)
  with assms obtain b where b: "t = HRef b" "b < length h" "own_in (h ! b) ''hash'' = Some (HRef a)"
    using get_in_ref by blast
  then have "b \<in> set (parts h t)" by (simp add: parts_def parts_at.simps [of "length h" h b])
  with b HRef show ?thesis
    by (force simp: hash_options_def own_in_hash)
qed simp_all


declare apply_op_in.simps [simp del]

text \<open>
  A run writes only into the options of the \<^verbatim>\<open>hash\<close> operators of its template, and
  there only the defaults.
\<close>

lemma kept_step:
  assumes "kept h h1 S" and "kept h1 h2 T" and "rank t \<le> length h"
    and "T = set (hash_options h1 t)" and "set (hash_options h t) \<subseteq> S"
  shows "kept h h2 S"
proof -
  from assms(1,3) have "hash_options h1 t = hash_options h t" by (rule hash_options_kept)
  with assms(4,5) have "T \<subseteq> S" by simp
  with assms(1,2) show ?thesis by (auto intro: kept_trans)
qed

lemma nested_kept:
  assumes "(\<forall>s. template \<noteq> HStr s) \<Longrightarrow>
             kept h (fst (transform_in libs h template v)) (set (hash_options h template))"
  shows "kept h (fst (case template of HStr s \<Rightarrow> single_chain_in libs h s v
                                      | _ \<Rightarrow> transform_in libs h template v))
           (set (hash_options h template))"
proof (cases template)
  case (HStr s)
  with single_chain_in_prefix [of h libs s v] show ?thesis by (auto intro: kept_prefix)
qed (use assms in auto)

lemma kept_aux:
  "rank t \<le> length h \<longrightarrow> kept h (fst (transform_in libs h t v)) (set (hash_options h t))"
  "rank t \<le> length h \<longrightarrow> kept h (fst (run_chain_in libs h t keys out)) (set (hash_options h t))"
  "rank opts \<le> length h \<longrightarrow>
     kept h (fst (apply_op_in libs h key v opts))
       ((if key = ''hash'' then set (refs [opts]) else {}) \<union> set (hash_options h opts))"
  "rank opts \<le> length h \<longrightarrow>
     kept h (fst (object_loop_in libs h v opts keys)) (set (hash_options h opts))"
  "rank opts \<le> length h \<longrightarrow>
     kept h (fst (map_loop_in libs h opts items)) (set (hash_options h opts))"
  "rank opts \<le> length h \<longrightarrow>
     kept h (fst (array_loop_in libs h v opts items))
       (\<Union>item \<in> {i \<in> set items. rank i < rank opts}. set (hash_options h item))"
proof (induction libs h t v and libs h t keys out and libs h key v opts
         and libs h v opts keys and libs h opts items and libs h v opts items
       rule: transform_in_run_chain_in_apply_op_in_object_loop_in_map_loop_in_array_loop_in.induct)
  case (1 libs h template "value")
  show ?case
  proof
    assume valid: "rank template \<le> length h"
    show "kept h (fst (transform_in libs h template value)) (set (hash_options h template))"
    proof (cases "nullish value")
      case True
      then show ?thesis by simp
    next
      case False
      obtain h1 out0 where c: "clone_in h value = (h1, out0)"
        by (cases "clone_in h value")
      with clone_in_prefix [of h "value"]
      have k1: "kept h h1 (set (hash_options h template))" by (auto intro: kept_prefix)
      show ?thesis
      proof (cases "keys_in h1 template")
        case (Inl e)
        with False c k1 show ?thesis by simp
      next
        case (Inr keys)
        from k1 valid have "rank template \<le> length h1" by (simp add: kept_def)
        with 1 [OF False c [symmetric] Inr]
        have "kept h1 (fst (run_chain_in libs h1 template keys out0))
                (set (hash_options h1 template))" by simp
        with k1 valid have "kept h (fst (run_chain_in libs h1 template keys out0))
                (set (hash_options h template))"
          by (auto intro: kept_step)
        with False c Inr show ?thesis by simp
      qed
    qed
  qed
next
  case (2 libs h template out0)
  then show ?case by simp
next
  case (3 libs h template key keys out0)
  show ?case
  proof
    assume valid: "rank template \<le> length h"
    let ?S = "set (hash_options h template)"
    show "kept h (fst (run_chain_in libs h template (key # keys) out0)) ?S"
    proof (cases "is_function key")
      case False
      then show ?thesis by simp
    next
      case fn: True
      show ?thesis
      proof (cases "get_in h template key")
        case (Inl e)
        with fn show ?thesis by simp
      next
        case (Inr options)
        show ?thesis
        proof (cases "rank options < rank template")
          case False
          with fn Inr show ?thesis by simp
        next
          case guard: True
          obtain h1 r where ap: "apply_op_in libs h key out0 options = (h1, r)"
            by (cases "apply_op_in libs h key out0 options")
          from guard valid have "rank options \<le> length h" by simp
          with 3(1) [OF _ Inr] fn guard ap
          have "kept h h1 ((if key = ''hash'' then set (refs [options]) else {})
                            \<union> set (hash_options h options))" by simp
          moreover have "(if key = ''hash'' then set (refs [options]) else {}) \<subseteq> ?S"
            using Inr hash_target [of h template options] by auto
          moreover have "set (hash_options h options) \<subseteq> ?S"
            using Inr guard by (rule member_hash_options)
          ultimately have k1: "kept h h1 ?S" by (auto intro: kept_mono)
          show ?thesis
          proof (cases r)
            case (Inl e)
            with fn Inr guard ap k1 show ?thesis by simp
          next
            case out: (Inr out1)
            show ?thesis
            proof (cases "nullish out1")
              case True
              with fn Inr guard ap k1 out show ?thesis by simp
            next
              case False
              from k1 valid have "rank template \<le> length h1" by (simp add: kept_def)
              with 3(2) [OF _ Inr _ ap [symmetric] out False] fn guard
              have "kept h1 (fst (run_chain_in libs h1 template keys out1))
                      (set (hash_options h1 template))" by simp
              with k1 valid have "kept h (fst (run_chain_in libs h1 template keys out1)) ?S"
                by (auto intro: kept_step)
              with fn Inr guard ap out False show ?thesis by simp
            qed
          qed
        qed
      qed
    qed
  qed
next
  case (4 libs h key "value" options)
  show ?case
  proof
    assume valid: "rank options \<le> length h"
    let ?S = "(if key = ''hash'' then set (refs [options]) else {}) \<union> set (hash_options h options)"
    consider (object) "key = ''object''" | (map) "key = ''map''" | (array) "key = ''array''"
      | (hash) "key = ''hash''"
      | (other) "key \<noteq> ''object''" "key \<noteq> ''map''" "key \<noteq> ''array''" "key \<noteq> ''hash''"
      by blast
    then show "kept h (fst (apply_op_in libs h key value options)) ?S"
    proof cases
      case object
      show ?thesis
      proof (cases "typeof_in options \<noteq> ''object''")
        case True
        with object show ?thesis by (simp add: apply_op_in.simps)
      next
        case False
        show ?thesis
        proof (cases "keys_in h options")
          case (Inl e)
          with object False show ?thesis by (simp add: apply_op_in.simps)
        next
          case (Inr keys)
          from 4(1) [OF _ _ _ object False Inr] object valid
          have "kept h (fst (object_loop_in libs h value options keys)) (set (hash_options h options))"
            by simp
          then have k: "kept h (fst (object_loop_in libs h value options keys)) ?S"
            by (auto intro: kept_mono)
          then have "kept h (fst (object_loop_in libs h value options keys) @ ext) ?S" for ext
            by (rule kept_append)
          with k object False Inr show ?thesis
            by (auto simp: apply_op_in.simps intro: kept_mono split: prod.splits sum.splits)
        qed
      qed
    next
      case map
      show ?thesis
      proof (cases "elements_in h value")
        case None
        with map show ?thesis by (simp add: apply_op_in.simps)
      next
        case (Some items)
        from 4(2) [OF _ _ _ _ map Some] map valid
        have "kept h (fst (map_loop_in libs h options items)) (set (hash_options h options))"
          by simp
        then have k: "kept h (fst (map_loop_in libs h options items)) ?S"
          by (auto intro: kept_mono)
        then have "kept h (fst (map_loop_in libs h options items) @ ext) ?S" for ext
          by (rule kept_append)
        with k map Some show ?thesis
          by (auto simp: apply_op_in.simps intro: kept_mono split: prod.splits sum.splits)
      qed
    next
      case array
      show ?thesis
      proof (cases "elements_in h options")
        case None
        with array show ?thesis by (simp add: apply_op_in.simps)
      next
        case (Some items)
        from 4(3) [OF _ _ _ _ _ _ _ _ array Some] array valid
        have "kept h (fst (array_loop_in libs h value options items))
                (\<Union>item \<in> {i \<in> set items. rank i < rank options}. set (hash_options h item))"
          by simp
        moreover have "(\<Union>item \<in> {i \<in> set items. rank i < rank options}. set (hash_options h item))
                         \<subseteq> set (hash_options h options)"
          using element_hash_options [OF Some] by auto
        ultimately have k: "kept h (fst (array_loop_in libs h value options items)) ?S"
          by (auto intro: kept_mono)
        then have "kept h (fst (array_loop_in libs h value options items) @ ext) ?S" for ext
          by (rule kept_append)
        with k array Some show ?thesis
          by (auto simp: apply_op_in.simps intro: kept_mono split: prod.splits sum.splits)
      qed
    next
      case hash
      with hash_in_kept [of h libs "value" options] show ?thesis
        by (auto simp: apply_op_in.simps intro: kept_mono)
    next
      case other
      have "prefix h (fst (apply_op_in libs h key value options))"
        using other fresh_prefix [of h] multiple_in_prefix [of h libs "value" options]
          filter_in_prefix [of h "value"]
        by (simp add: apply_op_in.simps)
      then show ?thesis by (rule kept_prefix)
    qed
  qed
next
  case (5 libs h "value" options)
  then show ?case by simp
next
  case (6 libs h "value" options key keys)
  show ?case
  proof
    assume valid: "rank options \<le> length h"
    let ?S = "set (hash_options h options)"
    show "kept h (fst (object_loop_in libs h value options (key # keys))) ?S"
    proof (cases "get_in h options key")
      case (Inl e)
      then show ?thesis by simp
    next
      case (Inr template)
      show ?thesis
      proof (cases "rank template < rank options")
        case False
        with Inr show ?thesis by simp
      next
        case guard: True
        define r where "r = (case template of HStr s \<Rightarrow> single_chain_in libs h s value
                                            | _ \<Rightarrow> transform_in libs h template value)"
        from guard valid have tv: "rank template \<le> length h" by simp
        have "kept h (fst r) (set (hash_options h template))"
          unfolding r_def
        proof (rule nested_kept)
          assume "\<forall>s. template \<noteq> HStr s"
          with 6(1-6) [OF Inr] guard tv
          show "kept h (fst (transform_in libs h template value)) (set (hash_options h template))"
            by (cases template) auto
        qed
        moreover have "set (hash_options h template) \<subseteq> ?S"
          using Inr guard by (rule member_hash_options)
        ultimately have k1: "kept h (fst r) ?S" by (auto intro: kept_mono)
        show ?thesis
        proof (cases "snd r")
          case (Inl e)
          with Inr guard k1 show ?thesis
            by (cases r) (simp add: r_def)
        next
          case out: (Inr b)
          then have r: "(fst r, Inr b) = r" by (cases r) simp
          show ?thesis
          proof (cases "key = ''__proto__'' \<and> typeof_in b \<in> {''object'', ''function''}")
            case True
            with Inr guard k1 r show ?thesis
              by (cases r) (auto simp: r_def)
          next
            case False
            from k1 valid have "rank options \<le> length (fst r)" by (simp add: kept_def)
            with 6(7) [OF Inr _ r [unfolded r_def] refl False] guard
            have "kept (fst r) (fst (object_loop_in libs (fst r) value options keys))
                    (set (hash_options (fst r) options))" by (simp add: r_def)
            with k1 valid have "kept h (fst (object_loop_in libs (fst r) value options keys)) ?S"
              by (auto intro: kept_step)
            with Inr guard r False show ?thesis
              by (cases r) (auto simp: r_def split: prod.splits sum.splits)
          qed
        qed
      qed
    qed
  qed
next
  case (7 libs h options)
  then show ?case by simp
next
  case (8 libs h options item items)
  show ?case
  proof
    assume valid: "rank options \<le> length h"
    let ?S = "set (hash_options h options)"
    define r where "r = (case options of HStr s \<Rightarrow> single_chain_in libs h s item
                                       | _ \<Rightarrow> transform_in libs h options item)"
    have k1: "kept h (fst r) ?S"
      unfolding r_def
    proof (rule nested_kept)
      assume "\<forall>s. options \<noteq> HStr s"
      with 8(1-6) valid
      show "kept h (fst (transform_in libs h options item)) (set (hash_options h options))"
        by (cases options) auto
    qed
    show "kept h (fst (map_loop_in libs h options (item # items))) ?S"
    proof (cases "snd r")
      case (Inl e)
      with k1 show ?thesis by (cases r) (simp add: r_def)
    next
      case out: (Inr b)
      then have r: "(fst r, Inr b) = r" by (cases r) simp
      from k1 valid have "rank options \<le> length (fst r)" by (simp add: kept_def)
      with 8(7) [OF r [unfolded r_def] refl]
      have "kept (fst r) (fst (map_loop_in libs (fst r) options items))
              (set (hash_options (fst r) options))" by (simp add: r_def)
      with k1 valid have "kept h (fst (map_loop_in libs (fst r) options items)) ?S"
        by (auto intro: kept_step)
      with r show ?thesis
        by (cases r) (auto simp: r_def split: prod.splits sum.splits)
    qed
  qed
next
  case (9 libs h "value" options)
  then show ?case by simp
next
  case (10 libs h "value" options item items)
  show ?case
  proof
    assume valid: "rank options \<le> length h"
    let ?S = "\<Union>i \<in> {i \<in> set (item # items). rank i < rank options}. set (hash_options h i)"
    show "kept h (fst (array_loop_in libs h value options (item # items))) ?S"
    proof (cases "rank item < rank options")
      case False
      then show ?thesis by simp
    next
      case guard: True
      define r where "r = (case item of HStr s \<Rightarrow> single_chain_in libs h s value
                                      | _ \<Rightarrow> transform_in libs h item value)"
      from guard valid have iv: "rank item \<le> length h" by simp
      have "kept h (fst r) (set (hash_options h item))"
        unfolding r_def
      proof (rule nested_kept)
        assume "\<forall>s. item \<noteq> HStr s"
        with 10(1-6) guard iv
        show "kept h (fst (transform_in libs h item value)) (set (hash_options h item))"
          by (cases item) auto
      qed
      moreover have "set (hash_options h item) \<subseteq> ?S" using guard by auto
      ultimately have k1: "kept h (fst r) ?S" by (auto intro: kept_mono)
      show ?thesis
      proof (cases "snd r")
        case (Inl e)
        with guard k1 show ?thesis by (cases r) (simp add: r_def)
      next
        case out: (Inr b)
        then have r: "(fst r, Inr b) = r" by (cases r) simp
        from k1 valid have "rank options \<le> length (fst r)" by (simp add: kept_def)
        with 10(7) [OF _ r [unfolded r_def] refl] guard
        have k2: "kept (fst r) (fst (array_loop_in libs (fst r) value options items))
                (\<Union>i \<in> {i \<in> set items. rank i < rank options}. set (hash_options (fst r) i))"
          by (simp add: r_def)
        have "hash_options (fst r) i = hash_options h i" if "rank i < rank options" for i
          using k1 that valid by (intro hash_options_kept) auto
        then have sub: "(\<Union>i \<in> {i \<in> set items. rank i < rank options}. set (hash_options (fst r) i)) \<subseteq> ?S"
          by auto
        have "kept h (fst (array_loop_in libs (fst r) value options items)) ?S"
          by (rule kept_trans [OF k1 k2]) (use sub in blast)
        with guard r show ?thesis
          by (cases r) (auto simp: r_def split: prod.splits sum.splits)
      qed
    qed
  qed
qed


lemma transform_in_kept:
  "rank t \<le> length h \<Longrightarrow> kept h (fst (transform_in libs h t v)) (set (hash_options h t))"
  using kept_aux(1) by blast

text \<open>A value shows the same tree as long as no part of it is written to.\<close>

lemma read_at_kept:
  assumes "kept h h' S"
  shows "a < length h \<Longrightarrow> a < n \<Longrightarrow> a < n' \<Longrightarrow> set (parts_at n h a) \<inter> S = {} \<Longrightarrow>
         read_at n' h' (HRef a) = read_at n h (HRef a)"
proof (induction a arbitrary: n n' rule: less_induct)
  case (less a)
  from less.prems
  have parts: "set (parts_at n h a) = insert a (\<Union>c \<in> set (children (h ! a)). set (parts_at a h c))"
    by (simp add: parts_at.simps [of n h a])
  with less.prems(4) have "a \<notin> S" by auto
  with assms less.prems(1) have cell: "h' ! a = h ! a" and len: "a < length h'"
    by (auto simp: kept_def)
  have member: "read_at a h' v = read_at a h v" if "\<forall>b. v = HRef b \<longrightarrow> b \<in> set (children (h ! a))" for v
  proof (cases v)
    case (HRef c)
    with that have child: "c \<in> set (children (h ! a))" by simp
    show ?thesis
    proof (cases "c < a")
      case True
      from child parts less.prems(4) have "set (parts_at a h c) \<inter> S = {}" by auto
      with less.IH [of c a a] True less.prems(1) HRef show ?thesis by simp
    next
      case False
      with HRef show ?thesis by simp
    qed
  qed simp_all
  show ?case
  proof (cases "h ! a")
    case (Obj ps)
    have "map (\<lambda>p. (fst p, read_at a h' (snd p))) ps = map (\<lambda>p. (fst p, read_at a h (snd p))) ps"
    proof (rule map_cong [OF refl])
      fix p assume "p \<in> set ps"
      then have "\<forall>b. snd p = HRef b \<longrightarrow> b \<in> set (children (h ! a))"
        by (auto simp: Obj set_refs intro: rev_image_eqI)
      then show "(fst p, read_at a h' (snd p)) = (fst p, read_at a h (snd p))"
        by (simp add: member)
    qed
    with Obj cell len less.prems show ?thesis by simp
  next
    case (Arr vs ps)
    have "map (read_at a h') vs = map (read_at a h) vs"
    proof (rule map_cong [OF refl])
      fix v assume "v \<in> set vs"
      then have "\<forall>b. v = HRef b \<longrightarrow> b \<in> set (children (h ! a))"
        by (auto simp: Arr set_refs)
      then show "read_at a h' v = read_at a h v" by (rule member)
    qed
    with Arr cell len less.prems show ?thesis by simp
  qed
qed

lemma read_kept:
  assumes "kept h h' S" and "rank v \<le> length h" and "set (parts h v) \<inter> S = {}"
  shows "read h' v = read h v"
proof (cases v)
  case (HRef a)
  from assms(1) have "length h \<le> length h'" by (simp add: kept_def)
  with assms HRef show ?thesis
    using read_at_kept [of h h' S a "length h" "length h'"] by (simp add: read_def parts_def)
qed (simp_all add: read_def)

subsection \<open>The clone\<close>

text \<open>
  \<open>store\<close> builds a tree of new objects, and reading it back gives the tree.
\<close>

lemma store_valid:
  "rank (snd (store h j)) \<le> length (fst (store h j))"
  "\<forall>v \<in> set (snd (store_list h xs)). rank v \<le> length (fst (store_list h xs))"
  "\<forall>p \<in> set (snd (store_props h kvs)). rank (snd p) \<le> length (fst (store_props h kvs))"
proof (induction h j and h xs and h kvs rule: store_store_list_store_props.induct)
  case (1 h xs)
  then show ?case by (auto split: prod.splits)
next
  case (2 h kvs)
  then show ?case by (auto split: prod.splits)
next
  case (10 h x xs)
  obtain h1 v where s: "store h x = (h1, v)" by (cases "store h x")
  obtain h2 vs where l: "store_list h1 xs = (h2, vs)" by (cases "store_list h1 xs")
  from store_prefix(2) [of h1 xs] l have "length h1 \<le> length h2"
    by (auto dest: prefix_length_le)
  with 10(1) 10(2) [OF s [symmetric]] s l show ?case by auto
next
  case (12 h p ps)
  obtain h1 v where s: "store h (snd p) = (h1, v)" by (cases "store h (snd p)")
  obtain h2 vs where l: "store_props h1 ps = (h2, vs)" by (cases "store_props h1 ps")
  from store_prefix(3) [of h1 ps] l have "length h1 \<le> length h2"
    by (auto dest: prefix_length_le)
  with 12(1) 12(2) [OF s [symmetric]] s l show ?case by fastforce
qed simp_all

lemma read_prefix:
  assumes "prefix h h'" and "rank v \<le> length h"
  shows "read h' v = read h v"
  using read_kept [of h h' "{}" v] assms by (simp add: kept_prefix)

lemma read_at_length:
  assumes "rank v \<le> length h"
  shows "read_at (length h) (h @ ext) v = read h v"
proof (cases v)
  case (HRef a)
  with assms have a: "a < length h" by simp
  have "kept h (h @ ext) {}" by (simp add: kept_prefix)
  from read_at_kept [OF this a, of "length h" "length h"] a HRef show ?thesis
    by (simp add: read_def)
qed (simp_all add: read_def)

lemma read_store:
  "read (fst (store h j)) (snd (store h j)) = j"
  "map (read (fst (store_list h xs))) (snd (store_list h xs)) = xs"
  "map (\<lambda>p. (fst p, read (fst (store_props h kvs)) (snd p))) (snd (store_props h kvs)) = kvs"
proof (induction h j and h xs and h kvs rule: store_store_list_store_props.induct)
  case (1 h xs)
  obtain h1 vs where l: "store_list h xs = (h1, vs)" by (cases "store_list h xs")
  from store_valid(2) [of h xs] l have "\<forall>v \<in> set vs. rank v \<le> length h1" by simp
  then have eq: "map (read_at (length h1) (h1 @ [Arr vs []])) vs = map (read h1) vs"
    by (simp add: read_at_length)
  have "read (fst (store h (JArr xs))) (snd (store h (JArr xs)))
          = JArr (map (read_at (length h1) (h1 @ [Arr vs []])) vs)"
    using l by (simp add: read_def)
  also have "\<dots> = JArr (map (read h1) vs)" by (simp only: eq)
  also have "\<dots> = JArr xs" using 1 l by simp
  finally show ?case .
next
  case (2 h kvs)
  obtain h1 ps where l: "store_props h kvs = (h1, ps)" by (cases "store_props h kvs")
  from store_valid(3) [of h kvs] l have "\<forall>p \<in> set ps. rank (snd p) \<le> length h1" by simp
  then have eq: "map (\<lambda>p. (fst p, read_at (length h1) (h1 @ [Obj ps]) (snd p))) ps
               = map (\<lambda>p. (fst p, read h1 (snd p))) ps"
    by (simp add: read_at_length)
  have "read (fst (store h (JObj kvs))) (snd (store h (JObj kvs)))
          = JObj (map (\<lambda>p. (fst p, read_at (length h1) (h1 @ [Obj ps]) (snd p))) ps)"
    using l by (simp add: read_def)
  also have "\<dots> = JObj (map (\<lambda>p. (fst p, read h1 (snd p))) ps)" by (simp only: eq)
  also have "\<dots> = JObj kvs" using 2 l by simp
  finally show ?case .
next
  case (10 h x xs)
  obtain h1 v where s: "store h x = (h1, v)" by (cases "store h x")
  obtain h2 vs where l: "store_list h1 xs = (h2, vs)" by (cases "store_list h1 xs")
  from store_prefix(2) [of h1 xs] l have p: "prefix h1 h2" by simp
  from store_valid(1) [of h x] s have "rank v \<le> length h1" by simp
  with p have "read h2 v = read h1 v" by (rule read_prefix)
  with 10(1) 10(2) [OF s [symmetric]] s l show ?case by simp
next
  case (12 h p ps)
  obtain h1 v where s: "store h (snd p) = (h1, v)" by (cases "store h (snd p)")
  obtain h2 vs where l: "store_props h1 ps = (h2, vs)" by (cases "store_props h1 ps")
  from store_prefix(3) [of h1 ps] l have pre: "prefix h1 h2" by simp
  from store_valid(1) [of h "snd p"] s have "rank v \<le> length h1" by simp
  with pre have "read h2 v = read h1 v" by (rule read_prefix)
  with 12(1) 12(2) [OF s [symmetric]] s l show ?case by simp
qed (simp_all add: read_def)

text \<open>The objects of a tree that \<open>store\<close> builds are new.\<close>

lemma parts_at_children:
  assumes "a < n" and "a < length h"
  shows "set (parts_at n h a) = insert a (\<Union>c \<in> set (children (h ! a)). set (parts_at a h c))"
  using assms by (simp add: parts_at.simps [of n h a])

lemma parts_append:
  assumes "rank v \<le> length h"
  shows "parts (h @ ext) v = parts h v"
  using parts_kept [of h "h @ ext" "{}" v] assms by (simp add: kept_prefix)

lemma parts_new_cell:
  "set (parts (h @ [c]) (HRef (length h)))
     = insert (length h) (\<Union>b \<in> {b \<in> set (children c). b < length h}. set (parts h (HRef b)))"
proof -
  have "parts_at (length h) (h @ [c]) b = (if b < length h then parts h (HRef b) else [])" for b
  proof (cases "b < length h")
    case True
    have "kept h (h @ [c]) {}" by (simp add: kept_prefix)
    from parts_at_kept [OF this True, of "length h" "length h"] True show ?thesis
      by (simp add: parts_def)
  next
    case False
    then show ?thesis by (simp add: parts_at.simps)
  qed
  then show ?thesis
    by (auto simp: parts_def parts_at.simps [of "Suc (length h)" "h @ [c]" "length h"])
qed

lemma store_new:
  "\<forall>a \<in> set (parts (fst (store h j)) (snd (store h j))). length h \<le> a"
  "\<forall>v \<in> set (snd (store_list h xs)). \<forall>a \<in> set (parts (fst (store_list h xs)) v). length h \<le> a"
  "\<forall>p \<in> set (snd (store_props h kvs)).
     \<forall>a \<in> set (parts (fst (store_props h kvs)) (snd p)). length h \<le> a"
proof (induction h j and h xs and h kvs rule: store_store_list_store_props.induct)
  case (1 h xs)
  obtain h1 vs where l: "store_list h xs = (h1, vs)" by (cases "store_list h xs")
  from store_prefix(2) [of h xs] l have "length h \<le> length h1" by (auto dest: prefix_length_le)
  with 1 l show ?case
    by (auto simp: parts_new_cell set_refs)
next
  case (2 h kvs)
  obtain h1 ps where l: "store_props h kvs = (h1, ps)" by (cases "store_props h kvs")
  from store_prefix(3) [of h kvs] l have "length h \<le> length h1" by (auto dest: prefix_length_le)
  with 2 l show ?case
    by (fastforce simp: parts_new_cell set_refs)
next
  case (10 h x xs)
  obtain h1 v where s: "store h x = (h1, v)" by (cases "store h x")
  obtain h2 vs where l: "store_list h1 xs = (h2, vs)" by (cases "store_list h1 xs")
  from store_prefix(2) [of h1 xs] l have p: "prefix h1 h2" by simp
  from store_prefix(1) [of h x] s have len: "length h \<le> length h1" by (auto dest: prefix_length_le)
  from store_valid(1) [of h x] s have "rank v \<le> length h1" by simp
  with p have "parts h2 v = parts h1 v"
    using parts_kept [of h1 h2 "{}" v] by (simp add: kept_prefix)
  with 10(1) 10(2) [OF s [symmetric]] s l len show ?case by fastforce
next
  case (12 h p ps)
  obtain h1 v where s: "store h (snd p) = (h1, v)" by (cases "store h (snd p)")
  obtain h2 vs where l: "store_props h1 ps = (h2, vs)" by (cases "store_props h1 ps")
  from store_prefix(3) [of h1 ps] l have pre: "prefix h1 h2" by simp
  from store_prefix(1) [of h "snd p"] s have len: "length h \<le> length h1" by (auto dest: prefix_length_le)
  from store_valid(1) [of h "snd p"] s have "rank v \<le> length h1" by simp
  with pre have "parts h2 v = parts h1 v"
    using parts_kept [of h1 h2 "{}" v] by (simp add: kept_prefix)
  with 12(1) 12(2) [OF s [symmetric]] s l len show ?case by fastforce
qed (simp_all add: parts_def)

text \<open>
  What \<open>clone_in\<close> returns is a deep clone: it shows the tree of the value, and each of its
  objects is new.
\<close>

lemma clone_in_deep:
  assumes "clone_in h v = (h1, out)"
  shows "prefix h h1"
    and "read h1 out = cloneDeep (read h v)"
    and "\<forall>a \<in> set (parts h1 out). length h \<le> a"
  using assms clone_in_prefix [of h v] read_store(1) [of h "cloneDeep (read h v)"]
    store_new(1) [of h "cloneDeep (read h v)"]
  by (simp_all add: clone_in_def)

subsection \<open>Ordered heaps\<close>

text \<open>
  In an ordered heap the tests on the rank in \<open>run_chain_in\<close>, \<open>object_loop_in\<close> and
  \<open>array_loop_in\<close> never fail: what is read from an object lies below it
  (\<open>ordered_get_in\<close>, \<open>ordered_elements_in\<close>), so that the three functions satisfy their
  equations without the tests (\<open>run_chain_in_ordered\<close>, \<open>object_loop_in_ordered\<close>,
  \<open>array_loop_in_ordered\<close>). And a run keeps the heap ordered (\<open>ordered_aux\<close>): the new
  objects hold references to objects that exist, and the defaults of \<^verbatim>\<open>_hash\<close> are
  strings. So on an ordered heap the model follows the program through the whole run.
\<close>

lemma rank_hval_of [simp]: "rank (hval_of j) = 0"
  by (cases j) simp_all

lemma rank_ref: "rank v \<le> n \<longleftrightarrow> (\<forall>a. v = HRef a \<longrightarrow> a < n)"
  by (cases v) auto

lemma ordered_get_in:
  assumes "ordered h" and "get_in h (HRef a) k = Inr x"
  shows "rank x < rank (HRef a)"
proof (cases x)
  case (HRef b)
  from assms(2) have a: "a < length h"
    by (auto simp: get_in_def split: if_splits)
  with assms(2) HRef have "own_in (h ! a) k = Some (HRef b)"
    by (auto simp: get_in_def split: option.splits if_splits dest: arg_cong [where f = rank])
  then have "b \<in> set (children (h ! a))" by (rule own_in_child)
  with assms(1) a HRef show ?thesis by (auto simp: ordered_def)
qed simp_all

lemma ordered_elements_in:
  assumes "ordered h" and "elements_in h opts = Some items" and "i \<in> set items"
  shows "rank i < rank opts"
proof (cases i)
  case (HRef b)
  from assms(2) obtain a ps where a: "opts = HRef a" "a < length h" "h ! a = Arr items ps"
    by (auto simp: elements_in_def split: hval.splits if_splits cell.splits)
  with assms(3) HRef have "b \<in> set (children (h ! a))" by (simp add: set_refs)
  with assms(1) a HRef show ?thesis by (auto simp: ordered_def)
next
  case HUndef
  with assms(2) show ?thesis by (auto simp: elements_in_def split: hval.splits)
qed (use assms(2) in \<open>auto simp: elements_in_def split: hval.splits\<close>)

lemma ordered_append:
  "ordered h \<Longrightarrow> \<forall>b \<in> set (children c). b < length h \<Longrightarrow> ordered (h @ [c])"
  by (auto simp: ordered_def nth_append less_Suc_eq)

lemma ordered_with_defaults:
  assumes "ordered h"
  shows "ordered (h[a := with_defaults (h ! a)])"
proof -
  have "children (h[a := with_defaults (h ! a)] ! b) = children (h ! b)" if "b < length h" for b
    using that by (cases "b = a") simp_all
  with assms show ?thesis by (simp add: ordered_def)
qed

lemma store_ordered:
  "ordered h \<longrightarrow> ordered (fst (store h j)) \<and> rank (snd (store h j)) \<le> length (fst (store h j))"
  "ordered h \<longrightarrow> ordered (fst (store_list h xs)) \<and>
     (\<forall>v \<in> set (snd (store_list h xs)). rank v \<le> length (fst (store_list h xs)))"
  "ordered h \<longrightarrow> ordered (fst (store_props h kvs)) \<and>
     (\<forall>p \<in> set (snd (store_props h kvs)). rank (snd p) \<le> length (fst (store_props h kvs)))"
proof (induction h j and h xs and h kvs rule: store_store_list_store_props.induct)
  case (1 h xs)
  show ?case
  proof
    assume "ordered h"
    with 1 have o: "ordered (fst (store_list h xs))"
      and v: "\<forall>v \<in> set (snd (store_list h xs)). rank v \<le> length (fst (store_list h xs))"
      by simp_all
    from v have "\<forall>b \<in> set (children (Arr (snd (store_list h xs)) [])). b < length (fst (store_list h xs))"
      by (auto simp: set_refs)
    with o have "ordered (fst (store_list h xs) @ [Arr (snd (store_list h xs)) []])"
      by (rule ordered_append)
    then show "ordered (fst (store h (JArr xs))) \<and> rank (snd (store h (JArr xs))) \<le> length (fst (store h (JArr xs)))"
      by (auto split: prod.splits)
  qed
next
  case (2 h kvs)
  show ?case
  proof
    assume "ordered h"
    with 2 have o: "ordered (fst (store_props h kvs))"
      and v: "\<forall>p \<in> set (snd (store_props h kvs)). rank (snd p) \<le> length (fst (store_props h kvs))"
      by simp_all
    from v have "\<forall>b \<in> set (children (Obj (snd (store_props h kvs)))). b < length (fst (store_props h kvs))"
      by (auto simp: set_refs)
    with o have "ordered (fst (store_props h kvs) @ [Obj (snd (store_props h kvs))])"
      by (rule ordered_append)
    then show "ordered (fst (store h (JObj kvs))) \<and> rank (snd (store h (JObj kvs))) \<le> length (fst (store h (JObj kvs)))"
      by (auto split: prod.splits)
  qed
next
  case (10 h x xs)
  show ?case
  proof
    assume o: "ordered h"
    obtain h1 v where s: "store h x = (h1, v)" by (cases "store h x")
    obtain h2 vs where l: "store_list h1 xs = (h2, vs)" by (cases "store_list h1 xs")
    from 10(1) o s have o1: "ordered h1" and v1: "rank v \<le> length h1" by simp_all
    from 10(2) [OF s [symmetric]] o1 l have o2: "ordered h2" and v2: "\<forall>v \<in> set vs. rank v \<le> length h2"
      by simp_all
    from store_prefix(2) [of h1 xs] l have "length h1 \<le> length h2"
      by (auto dest: prefix_length_le)
    with v1 v2 o2 s l
    show "ordered (fst (store_list h (x # xs))) \<and>
     (\<forall>v \<in> set (snd (store_list h (x # xs))). rank v \<le> length (fst (store_list h (x # xs))))"
      by auto
  qed
next
  case (12 h p ps)
  show ?case
  proof
    assume o: "ordered h"
    obtain h1 v where s: "store h (snd p) = (h1, v)" by (cases "store h (snd p)")
    obtain h2 vs where l: "store_props h1 ps = (h2, vs)" by (cases "store_props h1 ps")
    from 12(1) o s have o1: "ordered h1" and v1: "rank v \<le> length h1" by simp_all
    from 12(2) [OF s [symmetric]] o1 l have o2: "ordered h2" and v2: "\<forall>p \<in> set vs. rank (snd p) \<le> length h2"
      by simp_all
    from store_prefix(3) [of h1 ps] l have "length h1 \<le> length h2"
      by (auto dest: prefix_length_le)
    with v1 v2 o2 s l
    show "ordered (fst (store_props h (p # ps))) \<and>
     (\<forall>q \<in> set (snd (store_props h (p # ps))). rank (snd q) \<le> length (fst (store_props h (p # ps))))"
      by auto
  qed
qed simp_all


lemma get_in_valid:
  assumes "ordered h" and "rank v \<le> length h" and "get_in h v k = Inr x"
  shows "rank x \<le> length h"
proof (cases v)
  case (HRef a)
  with assms ordered_get_in [of h a k x] show ?thesis by simp
qed (use assms(3) in \<open>auto simp: get_in_def split: sum.splits\<close>)

lemma follow_in_valid:
  "ordered h \<Longrightarrow> rank v \<le> length h \<Longrightarrow> follow_in h v p = Inr x \<Longrightarrow> rank x \<le> length h"
proof (induction p arbitrary: v)
  case Nil
  then show ?case by simp
next
  case (Cons k p)
  then show ?case by (auto split: sum.splits dest: get_in_valid)
qed

lemma follow_all_in_valid:
  "ordered h \<Longrightarrow> rank v \<le> length h \<Longrightarrow> follow_all_in h v ps = Inr xs \<Longrightarrow>
   \<forall>x \<in> set xs. rank x \<le> length h"
proof (induction ps arbitrary: xs)
  case Nil
  then show ?case by simp
next
  case (Cons p ps)
  then show ?case by (auto split: sum.splits dest: follow_in_valid)
qed

lemma single_in_valid:
  assumes "ordered h" and "rank v \<le> length h" and "single_in libs h v opts = Inr x"
  shows "rank x \<le> length h"
  using assms
  by (auto simp: single_in_def split: hval.splits option.splits sum.splits list.splits if_splits
      dest: get_in_valid follow_in_valid)

lemma new_array_good:
  assumes "ordered h" and "\<forall>x \<in> set xs. rank x \<le> length h"
  shows "good (h @ [Arr xs []], Inr (HRef (length h)))"
proof -
  from assms(2) have "\<forall>b \<in> set (children (Arr xs [])). b < length h"
    by (auto simp: set_refs)
  with assms(1) have "ordered (h @ [Arr xs []])" by (rule ordered_append)
  then show ?thesis by (simp add: good_def)
qed

lemma new_object_good:
  assumes "ordered h" and "\<forall>p \<in> set ps. rank (snd p) \<le> length h"
  shows "good (h @ [Obj ps], Inr (HRef (length h)))"
proof -
  from assms(2) have "\<forall>b \<in> set (children (Obj ps)). b < length h"
    by (auto simp: set_refs)
  with assms(1) have "ordered (h @ [Obj ps])" by (rule ordered_append)
  then show ?thesis by (simp add: good_def)
qed

lemma error_good [simp]: "good (h, Inl e) = ordered h"
  by (simp add: good_def)

lemma multiple_in_good:
  assumes "ordered h" and "rank v \<le> length h"
  shows "good (multiple_in libs h v opts)"
  using assms new_array_good [of h]
  by (auto simp: multiple_in_def split: hval.splits sum.splits dest: follow_all_in_valid)

lemma elements_in_valid:
  assumes "ordered h" and "elements_in h v = Some items" and "rank v \<le> length h"
  shows "\<forall>i \<in> set items. rank i \<le> length h"
  using assms ordered_elements_in [of h v items] by fastforce

lemma filter_in_good:
  assumes "ordered h" and "rank v \<le> length h"
  shows "good (filter_in h v)"
  using assms new_array_good [of h] elements_in_valid [of h v]
  by (auto simp: filter_in_def split: option.splits)

lemma store_good:
  assumes "ordered h" and "store h j = (h', v)"
  shows "ordered h'" and "rank v \<le> length h'"
  using store_ordered(1) [of h j] assms by simp_all

lemma fresh_good: "ordered h \<Longrightarrow> good (fresh h r)"
  by (auto simp: fresh_def good_def split: sum.splits prod.splits dest: store_good)

lemma hash_in_good: "ordered h \<Longrightarrow> good (hash_in libs h v opts)"
  using fresh_good ordered_with_defaults [of h]
  by (auto simp: hash_in_def Let_def split: hval.splits sum.splits)

lemma clone_in_good: "ordered h \<Longrightarrow> good (fst (clone_in h v), Inr (snd (clone_in h v)))"
  using store_ordered(1) [of h] by (simp add: clone_in_def good_def)

lemma single_chain_in_good:
  assumes "ordered h"
  shows "good (single_chain_in libs h s v)"
proof (cases "nullish v")
  case True
  with assms show ?thesis by (simp add: single_chain_in_def good_def)
next
  case False
  obtain h1 out0 where c: "clone_in h v = (h1, out0)" by (cases "clone_in h v")
  with assms have o: "ordered h1" and v: "rank out0 \<le> length h1"
    by (auto simp: clone_in_def dest: store_good)
  show ?thesis
  proof (cases "single_in libs h1 out0 (HStr s)")
    case (Inl e)
    with False c o show ?thesis by (simp add: single_chain_in_def)
  next
    case (Inr x)
    with o v have "rank x \<le> length h1" by (auto dest: single_in_valid)
    with False c o Inr show ?thesis by (simp add: single_chain_in_def good_def)
  qed
qed


lemma error_good_list [simp]: "good_list (h, Inl e) = ordered h"
  by (simp add: good_list_def)

lemma error_good_props [simp]: "good_props (h, Inl e) = ordered h"
  by (simp add: good_props_def)

lemma kept_length: "kept h h' S \<Longrightarrow> length h \<le> length h'"
  by (simp add: kept_def)

lemma transform_in_length:
  "rank t \<le> length h \<Longrightarrow> length h \<le> length (fst (transform_in libs h t v))"
  using kept_aux(1) [of t h libs v] by (auto dest: kept_length)

lemma apply_op_in_length:
  "rank opts \<le> length h \<Longrightarrow> length h \<le> length (fst (apply_op_in libs h key v opts))"
  using kept_aux(3) [of opts h libs key v] by (auto dest: kept_length)

lemma object_loop_in_length:
  "rank opts \<le> length h \<Longrightarrow> length h \<le> length (fst (object_loop_in libs h v opts keys))"
  using kept_aux(4) [of opts h libs v keys] by (auto dest: kept_length)

lemma map_loop_in_length:
  "rank opts \<le> length h \<Longrightarrow> length h \<le> length (fst (map_loop_in libs h opts items))"
  using kept_aux(5) [of opts h libs items] by (auto dest: kept_length)

lemma array_loop_in_length:
  "rank opts \<le> length h \<Longrightarrow> length h \<le> length (fst (array_loop_in libs h v opts items))"
  using kept_aux(6) [of opts h libs v items] by (auto dest: kept_length)

lemma nested_length:
  assumes "rank template \<le> length h"
  shows "length h \<le> length (fst (case template of HStr s \<Rightarrow> single_chain_in libs h s v
                                      | _ \<Rightarrow> transform_in libs h template v))"
proof (cases template)
  case (HStr s)
  with single_chain_in_prefix [of h libs s v] show ?thesis by (auto dest: prefix_length_le)
qed (use assms transform_in_length [of template h libs v] in auto)

lemma nested_good:
  assumes "(\<forall>s. template \<noteq> HStr s) \<Longrightarrow> good (transform_in libs h template v)"
    and "ordered h"
  shows "good (case template of HStr s \<Rightarrow> single_chain_in libs h s v
                              | _ \<Rightarrow> transform_in libs h template v)"
proof (cases template)
  case (HStr s)
  with assms(2) show ?thesis by (simp add: single_chain_in_good)
qed (use assms in auto)

lemma ordered_aux:
  "ordered h \<longrightarrow> rank t \<le> length h \<longrightarrow> rank v \<le> length h \<longrightarrow> good (transform_in libs h t v)"
  "ordered h \<longrightarrow> rank t \<le> length h \<longrightarrow> rank out \<le> length h \<longrightarrow>
     good (run_chain_in libs h t keys out)"
  "ordered h \<longrightarrow> rank opts \<le> length h \<longrightarrow> rank v \<le> length h \<longrightarrow>
     good (apply_op_in libs h key v opts)"
  "ordered h \<longrightarrow> rank opts \<le> length h \<longrightarrow> rank v \<le> length h \<longrightarrow>
     good_props (object_loop_in libs h v opts keys)"
  "ordered h \<longrightarrow> rank opts \<le> length h \<longrightarrow> (\<forall>i \<in> set items. rank i \<le> length h) \<longrightarrow>
     good_list (map_loop_in libs h opts items)"
  "ordered h \<longrightarrow> rank opts \<le> length h \<longrightarrow> rank v \<le> length h \<longrightarrow>
     good_list (array_loop_in libs h v opts items)"
proof (induction libs h t v and libs h t keys out and libs h key v opts
         and libs h v opts keys and libs h opts items and libs h v opts items
       rule: transform_in_run_chain_in_apply_op_in_object_loop_in_map_loop_in_array_loop_in.induct)
  case (1 libs h template "value")
  show ?case
  proof (intro impI)
    assume o: "ordered h" and tv: "rank template \<le> length h" and vv: "rank value \<le> length h"
    show "good (transform_in libs h template value)"
    proof (cases "nullish value")
      case True
      with o show ?thesis by (simp add: good_def)
    next
      case False
      obtain h1 out0 where c: "clone_in h value = (h1, out0)"
        by (cases "clone_in h value")
      with o have o1: "ordered h1" and v1: "rank out0 \<le> length h1"
        by (auto simp: clone_in_def dest: store_good)
      from c clone_in_prefix [of h "value"] have "length h \<le> length h1"
        by (auto dest: prefix_length_le)
      with tv have t1: "rank template \<le> length h1" by simp
      show ?thesis
      proof (cases "keys_in h1 template")
        case (Inl e)
        with False c o1 show ?thesis by simp
      next
        case (Inr keys)
        with 1 [OF False c [symmetric] Inr] o1 t1 v1 False c show ?thesis by simp
      qed
    qed
  qed
next
  case (2 libs h template out0)
  then show ?case by (simp add: good_def)
next
  case (3 libs h template key keys out0)
  show ?case
  proof (intro impI)
    assume o: "ordered h" and tv: "rank template \<le> length h" and vv: "rank out0 \<le> length h"
    show "good (run_chain_in libs h template (key # keys) out0)"
    proof (cases "is_function key")
      case False
      with o show ?thesis by simp
    next
      case fn: True
      show ?thesis
      proof (cases "get_in h template key")
        case (Inl e)
        with fn o show ?thesis by simp
      next
        case (Inr options)
        show ?thesis
        proof (cases "rank options < rank template")
          case False
          with fn Inr o show ?thesis by simp
        next
          case guard: True
          obtain h1 r where ap: "apply_op_in libs h key out0 options = (h1, r)"
            by (cases "apply_op_in libs h key out0 options")
          from guard tv have ov: "rank options \<le> length h" by simp
          with 3(1) [OF _ Inr] fn guard ap o vv have g1: "good (h1, r)" by simp
          from apply_op_in_length [OF ov, of libs key out0] ap tv
          have t1: "rank template \<le> length h1" by simp
          show ?thesis
          proof (cases r)
            case (Inl e)
            with fn Inr guard ap g1 show ?thesis by simp
          next
            case out: (Inr out1)
            show ?thesis
            proof (cases "nullish out1")
              case True
              with fn Inr guard ap g1 out show ?thesis by (simp add: good_def)
            next
              case False
              from g1 out have "ordered h1" "rank out1 \<le> length h1" by (simp_all add: good_def)
              with 3(2) [OF _ Inr _ ap [symmetric] out False] fn guard t1
              have "good (run_chain_in libs h1 template keys out1)" by simp
              with fn Inr guard ap out False show ?thesis by simp
            qed
          qed
        qed
      qed
    qed
  qed
next
  case (4 libs h key "value" options)
  show ?case
  proof (intro impI)
    assume o: "ordered h" and ov: "rank options \<le> length h" and vv: "rank value \<le> length h"
    consider (object) "key = ''object''" | (map) "key = ''map''" | (array) "key = ''array''"
      | (other) "key \<noteq> ''object''" "key \<noteq> ''map''" "key \<noteq> ''array''"
      by blast
    then show "good (apply_op_in libs h key value options)"
    proof cases
      case object
      show ?thesis
      proof (cases "typeof_in options \<noteq> ''object''")
        case True
        with object o show ?thesis by (simp add: apply_op_in.simps)
      next
        case False
        show ?thesis
        proof (cases "keys_in h options")
          case (Inl e)
          with object False o show ?thesis by (simp add: apply_op_in.simps)
        next
          case (Inr keys)
          from 4(1) [OF _ _ _ object False Inr] object o ov vv
          have g: "good_props (object_loop_in libs h value options keys)" by simp
          obtain h1 r where l: "object_loop_in libs h value options keys = (h1, r)"
            by (cases "object_loop_in libs h value options keys")
          show ?thesis
          proof (cases r)
            case (Inl e)
            with g l object False Inr show ?thesis by (simp add: apply_op_in.simps)
          next
            case out: (Inr ps)
            with g l have "good (h1 @ [Obj ps], Inr (HRef (length h1)))"
              by (intro new_object_good) (simp_all add: good_props_def)
            with l out object False Inr show ?thesis by (simp add: apply_op_in.simps)
          qed
        qed
      qed
    next
      case map
      show ?thesis
      proof (cases "elements_in h value")
        case None
        with map o show ?thesis by (simp add: apply_op_in.simps good_def)
      next
        case (Some items)
        with o vv have "\<forall>i \<in> set items. rank i \<le> length h"
          using elements_in_valid [of h "value" items] by simp
        with 4(2) [OF _ _ _ _ map Some] map o ov
        have g: "good_list (map_loop_in libs h options items)" by simp
        obtain h1 r where l: "map_loop_in libs h options items = (h1, r)"
          by (cases "map_loop_in libs h options items")
        show ?thesis
        proof (cases r)
          case (Inl e)
          with g l map Some show ?thesis by (simp add: apply_op_in.simps)
        next
          case out: (Inr xs)
          with g l have "good (h1 @ [Arr xs []], Inr (HRef (length h1)))"
            by (intro new_array_good) (simp_all add: good_list_def)
          with l out map Some show ?thesis by (simp add: apply_op_in.simps)
        qed
      qed
    next
      case array
      show ?thesis
      proof (cases "elements_in h options")
        case None
        with array o show ?thesis by (simp add: apply_op_in.simps)
      next
        case (Some items)
        from 4(3) [OF _ _ _ _ _ _ _ _ array Some] array o ov vv
        have g: "good_list (array_loop_in libs h value options items)" by simp
        obtain h1 r where l: "array_loop_in libs h value options items = (h1, r)"
          by (cases "array_loop_in libs h value options items")
        show ?thesis
        proof (cases r)
          case (Inl e)
          with g l array Some show ?thesis by (simp add: apply_op_in.simps)
        next
          case out: (Inr xs)
          with g l have "good (h1 @ [Arr xs []], Inr (HRef (length h1)))"
            by (intro new_array_good) (simp_all add: good_list_def)
          with l out array Some show ?thesis by (simp add: apply_op_in.simps)
        qed
      qed
    next
      case other
      have "good (h, single_in libs h value options)"
        using o vv by (auto simp: good_def dest: single_in_valid)
      moreover have "good (h, Inr options)"
        using o ov by (simp add: good_def)
      ultimately show ?thesis
        using other o vv multiple_in_good [of h "value" libs options] filter_in_good [of h "value"]
          hash_in_good [of h libs "value" options] fresh_good [of h]
        by (simp add: apply_op_in.simps)
    qed
  qed
next
  case (5 libs h "value" options)
  then show ?case by (simp add: good_props_def)
next
  case (6 libs h "value" options key keys)
  show ?case
  proof (intro impI)
    assume o: "ordered h" and ov: "rank options \<le> length h" and vv: "rank value \<le> length h"
    show "good_props (object_loop_in libs h value options (key # keys))"
    proof (cases "get_in h options key")
      case (Inl e)
      with o show ?thesis by simp
    next
      case (Inr template)
      show ?thesis
      proof (cases "rank template < rank options")
        case False
        with Inr o show ?thesis by simp
      next
        case guard: True
        define r where "r = (case template of HStr s \<Rightarrow> single_chain_in libs h s value
                                            | _ \<Rightarrow> transform_in libs h template value)"
        from guard ov have tv: "rank template \<le> length h" by simp
        have g1: "good r"
          unfolding r_def
        proof (rule nested_good)
          assume "\<forall>s. template \<noteq> HStr s"
          with 6(1-6) [OF Inr] guard tv o vv
          show "good (transform_in libs h template value)"
            by (cases template) auto
        qed (rule o)
        have len: "length h \<le> length (fst r)"
          unfolding r_def using tv by (rule nested_length)
        show ?thesis
        proof (cases "snd r")
          case (Inl e)
          with Inr guard g1 show ?thesis
            by (cases r) (simp add: r_def good_def)
        next
          case out: (Inr b)
          then have r: "(fst r, Inr b) = r" by (cases r) simp
          from g1 out have o1: "ordered (fst r)" and bv: "rank b \<le> length (fst r)"
            by (simp_all add: good_def)
          show ?thesis
          proof (cases "key = ''__proto__'' \<and> typeof_in b \<in> {''object'', ''function''}")
            case True
            with Inr guard o1 r show ?thesis
              by (cases r) (auto simp: r_def)
          next
            case False
            from len ov vv have ov1: "rank options \<le> length (fst r)" and vv1: "rank value \<le> length (fst r)"
              by simp_all
            with 6(7) [OF Inr _ r [unfolded r_def] refl False] guard o1
            have g2: "good_props (object_loop_in libs (fst r) value options keys)" by (simp add: r_def)
            from object_loop_in_length [OF ov1, of libs "value" keys] bv
            have "rank b \<le> length (fst (object_loop_in libs (fst r) value options keys))" by simp
            with g2 have "good_props (case object_loop_in libs (fst r) value options keys of
                            (h2, Inl e) \<Rightarrow> (h2, Inl e)
                          | (h2, Inr output) \<Rightarrow>
                              (h2, Inr (if key = ''__proto__'' then output else (key, b) # output)))"
              by (fastforce simp: good_props_def split: prod.splits sum.splits)
            with Inr guard r False show ?thesis
              by (cases r) (auto simp: r_def)
          qed
        qed
      qed
    qed
  qed
next
  case (7 libs h options)
  then show ?case by (simp add: good_list_def)
next
  case (8 libs h options item items)
  show ?case
  proof (intro impI)
    assume o: "ordered h" and ov: "rank options \<le> length h"
      and iv: "\<forall>i \<in> set (item # items). rank i \<le> length h"
    define r where "r = (case options of HStr s \<Rightarrow> single_chain_in libs h s item
                                       | _ \<Rightarrow> transform_in libs h options item)"
    have g1: "good r"
      unfolding r_def
    proof (rule nested_good)
      assume "\<forall>s. options \<noteq> HStr s"
      with 8(1-6) o ov iv
      show "good (transform_in libs h options item)"
        by (cases options) auto
    qed (rule o)
    have len: "length h \<le> length (fst r)"
      unfolding r_def using ov by (rule nested_length)
    show "good_list (map_loop_in libs h options (item # items))"
    proof (cases "snd r")
      case (Inl e)
      with g1 show ?thesis by (cases r) (simp add: r_def good_def)
    next
      case out: (Inr b)
      then have r: "(fst r, Inr b) = r" by (cases r) simp
      from g1 out have o1: "ordered (fst r)" and bv: "rank b \<le> length (fst r)"
        by (simp_all add: good_def)
      from len ov iv have ov1: "rank options \<le> length (fst r)"
        and iv1: "\<forall>i \<in> set items. rank i \<le> length (fst r)"
        by auto
      with 8(7) [OF r [unfolded r_def] refl] o1
      have g2: "good_list (map_loop_in libs (fst r) options items)" by (simp add: r_def)
      from map_loop_in_length [OF ov1, of libs items] bv
      have "rank b \<le> length (fst (map_loop_in libs (fst r) options items))" by simp
      with g2 have "good_list (case map_loop_in libs (fst r) options items of
             (h2, Inl e) \<Rightarrow> (h2, Inl e)
           | (h2, Inr output) \<Rightarrow> (h2, Inr (b # output)))"
        by (auto simp: good_list_def split: prod.splits sum.splits)
      with r show ?thesis
        by (cases r) (auto simp: r_def)
    qed
  qed
next
  case (9 libs h "value" options)
  then show ?case by (simp add: good_list_def)
next
  case (10 libs h "value" options item items)
  show ?case
  proof (intro impI)
    assume o: "ordered h" and ov: "rank options \<le> length h" and vv: "rank value \<le> length h"
    show "good_list (array_loop_in libs h value options (item # items))"
    proof (cases "rank item < rank options")
      case False
      with o show ?thesis by simp
    next
      case guard: True
      define r where "r = (case item of HStr s \<Rightarrow> single_chain_in libs h s value
                                      | _ \<Rightarrow> transform_in libs h item value)"
      from guard ov have iv: "rank item \<le> length h" by simp
      have g1: "good r"
        unfolding r_def
      proof (rule nested_good)
        assume "\<forall>s. item \<noteq> HStr s"
        with 10(1-6) guard iv o vv
        show "good (transform_in libs h item value)"
          by (cases item) auto
      qed (rule o)
      have len: "length h \<le> length (fst r)"
        unfolding r_def using iv by (rule nested_length)
      show ?thesis
      proof (cases "snd r")
        case (Inl e)
        with guard g1 show ?thesis by (cases r) (simp add: r_def good_def)
      next
        case out: (Inr b)
        then have r: "(fst r, Inr b) = r" by (cases r) simp
        from g1 out have o1: "ordered (fst r)" and bv: "rank b \<le> length (fst r)"
          by (simp_all add: good_def)
        from len ov vv have ov1: "rank options \<le> length (fst r)" and vv1: "rank value \<le> length (fst r)"
          by simp_all
        with 10(7) [OF _ r [unfolded r_def] refl] guard o1
        have g2: "good_list (array_loop_in libs (fst r) value options items)" by (simp add: r_def)
        from array_loop_in_length [OF ov1, of libs "value" items] bv
        have "rank b \<le> length (fst (array_loop_in libs (fst r) value options items))" by simp
        with g2 have "good_list (case array_loop_in libs (fst r) value options items of
                  (h2, Inl e) \<Rightarrow> (h2, Inl e)
                | (h2, Inr output) \<Rightarrow> (h2, Inr (b # output)))"
          by (auto simp: good_list_def split: prod.splits sum.splits)
        with guard r show ?thesis
          by (cases r) (auto simp: r_def)
      qed
    qed
  qed
qed


lemma transform_in_ordered:
  assumes "ordered h" and "rank t \<le> length h" and "rank v \<le> length h"
  shows "ordered (fst (transform_in libs h t v))"
    and "snd (transform_in libs h t v) = Inr x \<Longrightarrow> rank x \<le> length (fst (transform_in libs h t v))"
  using ordered_aux(1) [of h t v libs] assms by (simp_all add: good_def)

lemma run_chain_in_ordered:
  assumes "ordered h"
  shows "run_chain_in libs h (HRef a) (key # keys) out =
     (if \<not> is_function key then (h, Inl (Error (''Unknown function '' @ key)))
      else case get_in h (HRef a) key of
             Inl e \<Rightarrow> (h, Inl e)
           | Inr options \<Rightarrow>
               (case apply_op_in libs h key out options of
                  (h', Inl e) \<Rightarrow> (h', Inl e)
                | (h', Inr output') \<Rightarrow>
                    if nullish output' then (h', Inr HNull)
                    else run_chain_in libs h' (HRef a) keys output'))"
  using ordered_get_in [OF assms, of a key]
  by (auto split: sum.splits)

lemma object_loop_in_ordered:
  assumes "ordered h"
  shows "object_loop_in libs h v (HRef a) (key # keys) =
     (case get_in h (HRef a) key of
        Inl e \<Rightarrow> (h, Inl e)
      | Inr template \<Rightarrow>
          (case (case template of
                   HStr s \<Rightarrow> single_chain_in libs h s v
                 | _ \<Rightarrow> transform_in libs h template v) of
             (h1, Inl e) \<Rightarrow> (h1, Inl e)
           | (h1, Inr r) \<Rightarrow>
               if key = ''__proto__'' \<and> typeof_in r \<in> {''object'', ''function''}
               then (h1, Inl Unmodelled)
               else (case object_loop_in libs h1 v (HRef a) keys of
                       (h2, Inl e) \<Rightarrow> (h2, Inl e)
                     | (h2, Inr output') \<Rightarrow>
                         (h2, Inr (if key = ''__proto__'' then output' else (key, r) # output')))))"
  using ordered_get_in [OF assms, of a key]
  by (auto split: sum.splits)

lemma array_loop_in_ordered:
  assumes "ordered h" and "elements_in h opts = Some elems" and "item \<in> set elems"
  shows "array_loop_in libs h v opts (item # items) =
     (case (case item of
              HStr s \<Rightarrow> single_chain_in libs h s v
            | _ \<Rightarrow> transform_in libs h item v) of
        (h1, Inl e) \<Rightarrow> (h1, Inl e)
      | (h1, Inr r) \<Rightarrow>
          (case array_loop_in libs h1 v opts items of
             (h2, Inl e) \<Rightarrow> (h2, Inl e)
           | (h2, Inr output') \<Rightarrow> (h2, Inr (r # output'))))"
  using ordered_elements_in [OF assms]
  by simp

subsection \<open>The two models on trees\<close>

text \<open>
  On a template and an input that share nothing, the transformation of shared objects gives
  what the transformation of trees gives. Some runs of both, through the operators that run
  nested transformations and through \<^verbatim>\<open>hash\<close>:
\<close>

lemma transform_tree_object:
  "transform_tree test_libs
     (JObj [(''object'', JObj [(''a'', JStr ''$.foo''), (''b'', JObj [(''static'', JNum 1)])])])
     (JObj [(''foo'', JStr ''bar'')])
   = Inr (JObj [(''a'', JStr ''bar''), (''b'', JNum 1)]) \<and>
   snd (transform test_libs
     (JObj [(''object'', JObj [(''a'', JStr ''$.foo''), (''b'', JObj [(''static'', JNum 1)])])])
     (JObj [(''foo'', JStr ''bar'')]))
   = Inr (JObj [(''a'', JStr ''bar''), (''b'', JNum 1)])"
  by code_simp

lemma transform_tree_map_hash:
  "transform_tree test_libs
     (JObj [(''single'', JStr ''$.items''), (''map'', JObj [(''hash'', JObj [])])])
     (JObj [(''items'', JArr [JStr ''a'', JNum 2])])
   = Inr (JArr [JStr ''digest'', JStr ''digest'']) \<and>
   transform test_libs
     (JObj [(''single'', JStr ''$.items''), (''map'', JObj [(''hash'', JObj [])])])
     (JObj [(''items'', JArr [JStr ''a'', JNum 2])])
   = ([[''map'', ''hash''], [''map'', ''hash'']], Inr (JArr [JStr ''digest'', JStr ''digest'']))"
  by code_simp

lemma transform_tree_array:
  "transform_tree test_libs
     (JObj [(''array'', JArr [JStr ''$.x'', JObj [(''static'', JNull)], JObj [(''length'', JObj [])]])])
     (JObj [(''x'', JNum 2)])
   = Inl (Error ''Can only get length of arrays and strings'') \<and>
   snd (transform test_libs
     (JObj [(''array'', JArr [JStr ''$.x'', JObj [(''static'', JNull)], JObj [(''length'', JObj [])]])])
     (JObj [(''x'', JNum 2)]))
   = Inl (Error ''Can only get length of arrays and strings'') \<and>
   transform_tree test_libs
     (JObj [(''array'', JArr [JStr ''$.x'', JObj [(''static'', JNull)]])]) (JObj [(''x'', JNum 2)])
   = Inr (JArr [JNum 2, JNull]) \<and>
   snd (transform test_libs
     (JObj [(''array'', JArr [JStr ''$.x'', JObj [(''static'', JNull)]])]) (JObj [(''x'', JNum 2)]))
   = Inr (JArr [JNum 2, JNull])"
  by code_simp

lemma transform_tree_strings:
  "transform_tree test_libs
     (JObj [(''split'', JObj [(''separator'', JStr ''/'')]), (''join'', JObj [(''separator'', JStr ''-'')]),
            (''substring'', JObj [(''start'', JNum 1)]), (''unknownOp'', JNull)])
     (JStr ''a/b/c'')
   = Inl (Error ''Unknown function unknownOp'') \<and>
   snd (transform test_libs
     (JObj [(''split'', JObj [(''separator'', JStr ''/'')]), (''join'', JObj [(''separator'', JStr ''-'')]),
            (''substring'', JObj [(''start'', JNum 1)]), (''unknownOp'', JNull)])
     (JStr ''a/b/c''))
   = Inl (Error ''Unknown function unknownOp'') \<and>
   transform_tree test_libs
     (JObj [(''split'', JObj [(''separator'', JStr ''/'')]), (''join'', JObj [(''separator'', JStr ''-'')]),
            (''substring'', JObj [(''start'', JNum 1)])])
     (JStr ''a/b/c'')
   = Inr (JStr ''-b-c'') \<and>
   snd (transform test_libs
     (JObj [(''split'', JObj [(''separator'', JStr ''/'')]), (''join'', JObj [(''separator'', JStr ''-'')]),
            (''substring'', JObj [(''start'', JNum 1)])])
     (JStr ''a/b/c''))
   = Inr (JStr ''-b-c'')"
  by code_simp

section \<open>Properties of the argument injection\<close>

text \<open>
  When no encoded argument contains a question mark or a dollar, replacing the first
  question mark for each argument in turn is positional binding.
\<close>

lemma expand_dollars_plain: "CHR ''$'' \<notin> set r \<Longrightarrow> expand_dollars m f b r = r"
  by (induction m f b r rule: expand_dollars.induct) auto

lemma find_first_question:
  "find_first ''?'' front s =
     (if CHR ''?'' \<in> set s
      then Some (front @ takeWhile (\<lambda>c. c \<noteq> CHR ''?'') s, tl (dropWhile (\<lambda>c. c \<noteq> CHR ''?'') s))
      else None)"
  by (induction s arbitrary: front) auto

lemma js_replace_question:
  assumes "CHR ''$'' \<notin> set e"
  shows "js_replace s ''?'' e =
           (if CHR ''?'' \<in> set s
            then takeWhile (\<lambda>c. c \<noteq> CHR ''?'') s @ e @ tl (dropWhile (\<lambda>c. c \<noteq> CHR ''?'') s)
            else s)"
  using assms by (simp add: js_replace_def find_first_question expand_dollars_plain)

lemma js_replace_skip:
  assumes "CHR ''$'' \<notin> set e" and "CHR ''?'' \<notin> set p"
  shows "js_replace (p @ s) ''?'' e = p @ js_replace s ''?'' e"
  using assms
  by (auto simp: js_replace_question takeWhile_append dropWhile_append
        dest: set_takeWhileD)

lemma fold_replace_skip:
  assumes "\<forall>e \<in> set es. CHR ''$'' \<notin> set e" and "CHR ''?'' \<notin> set p"
  shows "fold (\<lambda>e q. js_replace q ''?'' e) es (p @ s) = p @ fold (\<lambda>e q. js_replace q ''?'' e) es s"
  using assms by (induction es arbitrary: s) (simp_all add: js_replace_skip)

lemma bind_positional_Nil [simp]: "bind_positional s [] = s"
  by (cases s) simp_all

lemma bind_positional_skip:
  "CHR ''?'' \<notin> set p \<Longrightarrow> bind_positional (p @ s) es = p @ bind_positional s es"
proof (induction p)
  case Nil
  then show ?case by simp
next
  case (Cons c p)
  then show ?case by (cases es) auto
qed

lemma bind_positional_no_question: "CHR ''?'' \<notin> set s \<Longrightarrow> bind_positional s es = s"
  using bind_positional_skip [of s "[]" es] by (cases es) simp_all

lemma split_at_question:
  assumes "CHR ''?'' \<in> set s"
  shows "s = takeWhile (\<lambda>c. c \<noteq> CHR ''?'') s @ CHR ''?'' # tl (dropWhile (\<lambda>c. c \<noteq> CHR ''?'') s)"
proof -
  from assms have "dropWhile (\<lambda>c. c \<noteq> CHR ''?'') s \<noteq> []" by simp
  moreover from this have "hd (dropWhile (\<lambda>c. c \<noteq> CHR ''?'') s) = CHR ''?''"
    using hd_dropWhile [of "\<lambda>c. c \<noteq> CHR ''?''" s] by simp
  ultimately have "dropWhile (\<lambda>c. c \<noteq> CHR ''?'') s = CHR ''?'' # tl (dropWhile (\<lambda>c. c \<noteq> CHR ''?'') s)"
    by (metis list.collapse)
  then show ?thesis by (metis takeWhile_dropWhile_id)
qed

lemma fold_replace_positional:
  assumes "\<forall>e \<in> set es. CHR ''?'' \<notin> set e \<and> CHR ''$'' \<notin> set e"
  shows "fold (\<lambda>e q. js_replace q ''?'' e) es s = bind_positional s es"
  using assms
proof (induction es arbitrary: s)
  case Nil
  then show ?case by (cases s) simp_all
next
  case (Cons e es)
  let ?p = "takeWhile (\<lambda>c. c \<noteq> CHR ''?'') s"
  let ?r = "tl (dropWhile (\<lambda>c. c \<noteq> CHR ''?'') s)"
  from Cons.prems have e: "CHR ''?'' \<notin> set e" "CHR ''$'' \<notin> set e"
    and es: "\<forall>e \<in> set es. CHR ''?'' \<notin> set e \<and> CHR ''$'' \<notin> set e" by auto
  have p: "CHR ''?'' \<notin> set ?p" by (auto dest: set_takeWhileD)
  show ?case
  proof (cases "CHR ''?'' \<in> set s")
    case False
    with e es Cons.IH [of s] show ?thesis
      by (simp add: js_replace_question bind_positional_no_question)
  next
    case True
    then have s: "s = ?p @ CHR ''?'' # ?r" by (rule split_at_question)
    from True e have "js_replace s ''?'' e = (?p @ e) @ ?r"
      by (simp add: js_replace_question)
    then have "fold (\<lambda>e q. js_replace q ''?'' e) (e # es) s
                 = fold (\<lambda>e q. js_replace q ''?'' e) es ((?p @ e) @ ?r)" by simp
    also from es p e have "\<dots> = (?p @ e) @ fold (\<lambda>e q. js_replace q ''?'' e) es ?r"
      by (intro fold_replace_skip) auto
    also from es Cons.IH [of ?r] have "\<dots> = (?p @ e) @ bind_positional ?r es" by simp
    also have "\<dots> = bind_positional (?p @ CHR ''?'' # ?r) (e # es)"
      using p by (simp add: bind_positional_skip)
    finally show ?thesis using s by simp
  qed
qed

lemma injectArguments_positional:
  assumes "\<forall>v \<in> set values. CHR ''?'' \<notin> set (encode_argument v) \<and> CHR ''$'' \<notin> set (encode_argument v)"
  shows "injectArguments q (JArr values) = bind_positional q (map encode_argument values)"
proof -
  have "fold (\<lambda>v q. js_replace q ''?'' (encode_argument v)) values q
          = fold (\<lambda>e q. js_replace q ''?'' e) (map encode_argument values) q"
    by (simp add: fold_map comp_def)
  with assms fold_replace_positional [of "map encode_argument values" q] show ?thesis
    by (simp add: injectArguments_def)
qed

section \<open>Properties of the access check and of the authentication\<close>

lemma bind_user_other:
  "operation \<noteq> ''read'' \<or> entity \<noteq> ''User'' \<or> params m \<noteq> [] \<Longrightarrow>
   bind_user ctx operation entity m = Inr m"
  by (auto simp: bind_user_def split: option.splits)

lemma typeof_undefined: "(typeof v = ''undefined'') = (v = JUndef)"
  by (cases v) simp_all

lemma access_data_all:
  "operation = ''list'' \<or> operation = ''create'' \<Longrightarrow> access_data operation ps = JObj ps"
  by (auto simp: access_data_def cloneDeep_def Let_def)

lemma access_data_id:
  "operation \<noteq> ''list'' \<Longrightarrow> operation \<noteq> ''create'' \<Longrightarrow>
   access_data operation ps =
     JObj [(''id'', case map_of ps ''id'' of
                      None \<Rightarrow> JNull
                    | Some v \<Rightarrow> if v = JUndef then JNull else v)]"
  by (simp add: access_data_def Let_def typeof_undefined split: option.splits)


lemma match_bearer_not_basic:
  "match_scheme ''Bearer '' header = Some token \<Longrightarrow> match_scheme ''Basic '' header = None"
proof (rule ccontr)
  assume be: "match_scheme ''Bearer '' header = Some token"
    and "match_scheme ''Basic '' header \<noteq> None"
  then have "take (length ''Bearer '') header = ''Bearer ''"
    and "take (length ''Basic '') header = ''Basic ''"
    by (auto simp: match_scheme_def Let_def split: if_splits)
  then have "take 2 (take (length ''Bearer '') header) = take 2 ''Bearer ''"
    and "take 2 (take (length ''Basic '') header) = take 2 ''Basic ''"
    by simp_all
  then have "take 2 header = ''Be''" and "take 2 header = ''Ba''"
    by (simp_all add: min_def)
  then show False by simp
qed

lemma authenticate_bearer:
  assumes "match_scheme ''Bearer '' header = Some token"
  shows "authenticate env options st (JStr header)
           = bearer_auth env options st header (Context None)"
  using match_bearer_not_basic [OF assms]
  by (simp add: authenticate_def basic_auth_def)

lemma match_basic_not_bearer:
  "match_scheme ''Basic '' header = Some encoded \<Longrightarrow> match_scheme ''Bearer '' header = None"
  using match_bearer_not_basic [of header] by (cases "match_scheme ''Bearer '' header") auto

lemma authenticate_basic:
  assumes "match_scheme ''Basic '' header = Some encoded"
  shows "authenticate env options st (JStr header)
           = (st, basic_auth env options header (Context None))"
  using match_basic_not_bearer [OF assms]
  by (cases "basic_auth env options header (Context None)")
     (simp_all add: authenticate_def bearer_auth_def)


text \<open>
  The guard of the Basic branch lets every user name pass that the table does not have: the
  entry is \<^verbatim>\<open>undefined\<close>, which is not the string \<^verbatim>\<open>'undefined'\<close>, and the verifier
  is called with it.
\<close>

lemma basic_auth_absent_user:
  assumes "match_scheme ''Basic '' header = Some encoded"
    and "js_split (decode_base64 env encoded) '':'' = username # password # rest"
    and "js_get (admins options) username = Inr JUndef"
  shows "authenticate env options st (JStr header)
           = (st, case isValid env JUndef (JStr password) of
                    Inl e \<Rightarrow> Inl e
                  | Inr valid \<Rightarrow> Inr (if valid then Undefined else Context None))"
  using assms by (simp add: authenticate_basic basic_auth_def)

lemma length_base64_alphabet: "length base64_alphabet = 64"
  by (simp add: base64_alphabet_def)

lemma sextet_char_in_alphabet: "sextet_char n \<in> set base64_alphabet"
  by (simp add: sextet_char_def length_base64_alphabet)

lemma length_base64_encode: "length (base64_encode bs) = 4 * ((length bs + 2) div 3)"
proof (induction bs rule: base64_encode.induct)
  case (4 a b c rest)
  have "(5 + length rest) div 3 = Suc ((Suc (Suc (length rest))) div 3)" by presburger
  with 4 show ?case by simp
qed simp_all

lemma set_base64_encode: "set (base64_encode bs) \<subseteq> set base64_alphabet \<union> {CHR ''=''}"
  by (induction bs rule: base64_encode.induct) (simp_all add: sextet_char_in_alphabet)

lemma length_randomBytes: "length (randomBytes n source) = n"
  by (simp add: randomBytes_def)

lemma token_length: "length (base64_encode (randomBytes 32 source)) = 44"
  by (simp add: length_base64_encode length_randomBytes)

lemma array_index_zero: "array_index ''0'' (Suc n) = Some 0"
  by (simp add: array_index_def upt_conv_Cons show_nat.simps digit_char_def del: upt_Suc)

lemma token_process_test:
  "token_process test_env test_options source [] test_body
     = ([(user_query test_options, [JStr ''alice@example.com'']),
         (create_token_query, [JStr (base64_encode (randomBytes 32 source)), JStr ''u1''])],
        Inr (Some (200, JObj [(''access_token'', JStr (base64_encode (randomBytes 32 source))),
                              (''token_type'', JStr ''bearer'')])))"
proof -
  have "length (base64_encode (randomBytes 32 source)) = 44" by (rule token_length)
  then have ne: "base64_encode (randomBytes 32 source) \<noteq> []" by auto
  show ?thesis
    by (simp add: token_process_def test_env_def test_body_def token_response_def
        array_index_zero ne Let_def)
qed

section \<open>Claims about the transformation\<close>

text \<open>
  Claim C1. For every template and every input: if the input is \<^verbatim>\<open>null\<close> or
  \<^verbatim>\<open>undefined\<close>, \<^verbatim>\<open>transform\<close> returns \<^verbatim>\<open>null\<close>; and if an operator of the
  chain returns \<^verbatim>\<open>null\<close> or \<^verbatim>\<open>undefined\<close>, the result is \<^verbatim>\<open>null\<close> and the
  operators after it are not executed: whatever keys follow (\<open>after\<close>), the outcome and the
  writes are those of the chain up to this operator. Here \<open>before\<close> are the keys that
  precede the operator, which ran to the end with the output \<open>out\<close>.
\<close>

theorem transform_null_and_bail:
  "transform libs template JNull = ([], Inr JNull) \<and>
   transform libs template JUndef = ([], Inr JNull) \<and>
   (transform libs (JObj before) value = (ws, Inr out) \<and> \<not> is_nullish out \<and>
    is_function key \<and> apply_op libs key out options = (ws', Inr r) \<and> is_nullish r
    \<longrightarrow> (\<forall>after. transform libs (JObj (before @ (key, options) # after)) value
                   = (ws @ at_key key ws', Inr JNull)))"
proof (intro conjI impI allI)
  show "transform libs template JNull = ([], Inr JNull)" by simp
  show "transform libs template JUndef = ([], Inr JNull)" by simp
next
  fix after
  assume a: "transform libs (JObj before) value = (ws, Inr out) \<and> \<not> is_nullish out \<and>
    is_function key \<and> apply_op libs key out options = (ws', Inr r) \<and> is_nullish r"
  then have "run_chain libs ((key, options) # after) out = (at_key key ws', Inr JNull)"
    by simp
  with a transform_append [of libs before "value" ws out "(key, options) # after"]
  show "transform libs (JObj (before @ (key, options) # after)) value
          = (ws @ at_key key ws', Inr JNull)"
    by simp
qed

theorem transform_null_and_bail_witness:
  "transform test_libs (JObj [(''single'', JStr ''$.unknown''),
                              (''hash'', JObj [(''algorithm'', JStr ''md5''), (''encoding'', JStr ''hex'')])])
     (JObj []) = ([], Inr JNull)"
proof -
  have 1: "transform test_libs (JObj []) (JObj []) = ([], Inr (JObj []))"
    by (simp add: cloneDeep_def)
  have 2: "apply_op test_libs ''single'' (JObj []) (JStr ''$.unknown'') = ([], Inr JNull)"
    by (simp add: apply_op.simps op_single_def simple_property_def is_word_char_def
        inherited_def object_prototype_def)
  have 3: "is_function ''single''"
    by (simp add: is_function_def operators_def)
  from transform_null_and_bail [of test_libs JNull "[]" "JObj []" "[]" "JObj []" "''single''"
      "JStr ''$.unknown''" "[]" JNull] 1 2 3
  show ?thesis by (simp add: at_key_def)
qed

text \<open>
  Claim C8, as amended. A key that names no function of the transformer (neither an
  operator nor a function inherited from \<^verbatim>\<open>Object.prototype\<close>) makes the evaluation
  fail with \<^verbatim>\<open>Unknown function <key>\<close> when the chain reaches it: the input is
  neither \<^verbatim>\<open>null\<close> nor \<^verbatim>\<open>undefined\<close>, and the operators \<open>before\<close> the key ran
  to the end with an output \<open>out\<close> that is neither. The keys \<open>after\<close> it play no role.
\<close>

theorem unknown_function_when_reached:
  assumes "transform libs (JObj before) value = (ws, Inr out)"
    and "\<not> is_nullish out"
    and "\<not> is_function key"
  shows "transform libs (JObj (before @ (key, options) # after)) value
           = (ws, Inl (Error (''Unknown function '' @ key)))"
  using transform_append [OF assms(1,2), of "(key, options) # after"] assms(3)
  by (simp add: run_chain_unknown)

theorem unknown_function_when_reached_witness:
  "transform test_libs (JObj [(''unknownOp'', JObj [])]) (JObj [])
     = ([], Inl (Error ''Unknown function unknownOp''))"
proof -
  have 1: "transform test_libs (JObj []) (JObj []) = ([], Inr (JObj []))"
    by (simp add: cloneDeep_def)
  have 2: "\<not> is_function ''unknownOp''"
    by (simp add: is_function_def operators_def inherited_functions_def)
  from unknown_function_when_reached [OF 1 _ 2, of "JObj []" "[]"] show ?thesis by simp
qed

text \<open>
  The claim C8 as stated, "regardless of the input value", fails: with the input
  \<^verbatim>\<open>null\<close> the same template gives \<^verbatim>\<open>null\<close> and no error, and so does a chain
  that bails before it reaches the unknown key.
\<close>

theorem unknown_function_not_reached:
  "\<not> is_function ''unknownOp'' \<and>
   transform test_libs (JObj [(''unknownOp'', JObj [])]) JNull = ([], Inr JNull) \<and>
   transform test_libs (JObj [(''single'', JStr ''$.unknown''), (''unknownOp'', JObj [])]) (JObj [])
     = ([], Inr JNull)"
  by (simp add: is_function_def operators_def inherited_functions_def apply_op.simps
      op_single_def simple_property_def is_word_char_def at_key_def cloneDeep_def
      inherited_def object_prototype_def)

text \<open>
  The class under \<^verbatim>\<open>src/\<close> has no method \<^verbatim>\<open>_count\<close>: there, a template that starts
  with the key \<^verbatim>\<open>count\<close> fails with \<^verbatim>\<open>Unknown function count\<close> on every input
  that is neither \<^verbatim>\<open>null\<close> nor \<^verbatim>\<open>undefined\<close>.
\<close>

lemma count_not_dispatched:
  assumes "\<not> is_nullish value"
  shows "transform libs (JObj ((''count'', options) # after)) value
           = ([], Inl (Error ''Unknown function count''))"
proof -
  have "\<not> is_function ''count''"
    by (simp add: is_function_def operators_def inherited_functions_def)
  with assms show ?thesis
    by (simp add: run_chain_unknown)
qed

text \<open>
  Claim C7, for the operator as the specification describes it. For every input value and
  whatever the options, \<^verbatim>\<open>count\<close> returns a number and does not fail: the length of
  the input when it is a string or an array, which is what the operator \<^verbatim>\<open>length\<close> of
  the sources returns for it, and 0 for every other input, where \<^verbatim>\<open>length\<close> throws.
\<close>

theorem count_never_fails:
  "(\<exists>n. op_count value options = Inr (JNum n)) \<and>
   (\<forall>s. value = JStr s \<longrightarrow> op_count value options = Inr (JNum (int (length s)))) \<and>
   (\<forall>xs. value = JArr xs \<longrightarrow> op_count value options = Inr (JNum (int (length xs)))) \<and>
   ((\<forall>s. value \<noteq> JStr s) \<and> (\<forall>xs. value \<noteq> JArr xs) \<longrightarrow> op_count value options = Inr (JNum 0)) \<and>
   (case op_length value of Inr r \<Rightarrow> op_count value options = Inr r
                          | Inl e \<Rightarrow> op_count value options = Inr (JNum 0))"
  by (cases "value") (simp_all add: op_count_def op_length_def)

theorem count_never_fails_witness:
  "op_count (JArr [JNum 1, JNum 2, JNum 3]) (JObj []) = Inr (JNum 3) \<and>
   op_count (JStr ''test'') (JObj []) = Inr (JNum 4) \<and>
   op_count (JObj []) (JObj []) = Inr (JNum 0)"
  using count_never_fails [of "JArr [JNum 1, JNum 2, JNum 3]" "JObj []"]
    count_never_fails [of "JStr ''test''" "JObj []"]
    count_never_fails [of "JObj []" "JObj []"]
  by simp

text \<open>
  What \<^verbatim>\<open>split\<close> does in the class under \<^verbatim>\<open>src/\<close>. For a string input and options
  whose separator is a non-empty string, it returns the pieces of the input between the
  occurrences of the separator: joined by the separator they give the input back, and no
  piece contains the separator. Only the separator is read from the options.
\<close>

lemma split_by_separator:
  assumes "js_get options ''separator'' = Inr (JStr sep)" and "sep \<noteq> []"
  shows "op_split (JStr s) options = Inr (JArr (map JStr (js_split s sep))) \<and>
         join_strings sep (js_split s sep) = s \<and>
         (\<forall>p \<in> set (js_split s sep). \<not> sublist sep p)"
proof (intro conjI ballI)
  from assms show "op_split (JStr s) options = Inr (JArr (map JStr (js_split s sep)))"
    by (simp add: op_split_def)
  from assms(2) show "join_strings sep (js_split s sep) = s"
    by (simp add: js_split_def join_split_scan)
next
  fix p
  assume "p \<in> set (js_split s sep)"
  with assms(2) have p: "p \<in> set (split_scan sep [] s)"
    by (simp add: js_split_def)
  have short: "\<not> sublist sep ([] @ take (length sep - 1) s)"
  proof
    assume "sublist sep ([] @ take (length sep - 1) s)"
    then have "length sep \<le> length (take (length sep - 1) s)"
      using sublist_length_le by fastforce
    with assms(2) show False by (cases sep) auto
  qed
  from split_scan_no_sep [OF assms(2) short p] show "\<not> sublist sep p" .
qed

text \<open>
  Claim C6 says that with \<^verbatim>\<open>maxItems\<close> and \<^verbatim>\<open>addRemainder\<close> the result has at most
  \<^verbatim>\<open>maxItems\<close> elements, the last of which holds the remainder of the input. The method
  \<^verbatim>\<open>_split\<close> under \<^verbatim>\<open>src/\<close> reads neither option. On the inputs of the two tests of
  \<^verbatim>\<open>src/test/script.js\<close> (lines 1655 to 1698), which expect \<^verbatim>\<open>["a", "b/c"]\<close> and
  \<^verbatim>\<open>["a", "b"]\<close>, it returns the three pieces.
\<close>

theorem split_ignores_maxItems:
  "transform test_libs
     (JObj [(''split'', JObj [(''separator'', JStr ''/''), (''maxItems'', JNum 2),
                              (''addRemainder'', JBool True)])])
     (JStr ''a/b/c'')
     = ([], Inr (JArr [JStr ''a'', JStr ''b'', JStr ''c''])) \<and>
   transform test_libs
     (JObj [(''split'', JObj [(''separator'', JStr ''/''), (''maxItems'', JNum 2)])])
     (JStr ''a/b/c'')
     = ([], Inr (JArr [JStr ''a'', JStr ''b'', JStr ''c'']))"
  by (simp add: cloneDeep_def is_function_def operators_def apply_op.simps op_split_def
      js_split_def at_key_def inherited_def object_prototype_def)

text \<open>
  Claim C9, as amended. The claim is about objects that the caller still holds after the
  call, so it is stated on the transformation of shared objects. \<^verbatim>\<open>transform\<close>
  removes no object and writes into no object that exists when it is called, with one
  exception: an object that a part of the template holds as its property \<^verbatim>\<open>hash\<close>
  (the options of a \<^verbatim>\<open>hash\<close> operator) may receive the defaults of \<^verbatim>\<open>_hash\<close>,
  the properties \<^verbatim>\<open>encoding\<close> and \<^verbatim>\<open>algorithm\<close> where it lacks them. So when no
  part of the input is such an object, in particular when the input shares no object with
  the template, every object of the input is what it was, and the input is deep-equal to
  its original after \<^verbatim>\<open>transform\<close> returns or throws: the operators act on a deep
  clone, which shows the tree of the input and is made of new objects (\<open>clone_in_deep\<close>).
\<close>

theorem transform_frame:
  assumes "rank template \<le> length h"
    and "transform_in libs h template value = (h', r)"
  shows "length h \<le> length h' \<and>
         (\<forall>a<length h. h' ! a \<noteq> h ! a \<longrightarrow>
            a \<in> set (hash_options h template) \<and> h' ! a = with_defaults (h ! a)) \<and>
         (rank value \<le> length h \<and> set (parts h value) \<inter> set (hash_options h template) = {} \<longrightarrow>
            parts h' value = parts h value \<and>
            (\<forall>a \<in> set (parts h value). h' ! a = h ! a) \<and>
            read h' value = read h value)"
proof -
  from assms have k: "kept h h' (set (hash_options h template))"
    using transform_in_kept [of template h libs "value"] by simp
  then have "length h \<le> length h'"
    and changed: "\<forall>a<length h. h' ! a \<noteq> h ! a \<longrightarrow>
            a \<in> set (hash_options h template) \<and> h' ! a = with_defaults (h ! a)"
    by (auto simp: kept_def)
  moreover have "parts h' value = parts h value \<and>
            (\<forall>a \<in> set (parts h value). h' ! a = h ! a) \<and>
            read h' value = read h value"
    if v: "rank value \<le> length h"
      and d: "set (parts h value) \<inter> set (hash_options h template) = {}"
  proof (intro conjI ballI)
    show "parts h' value = parts h value" using parts_kept [OF k v] .
    show "read h' value = read h value" using read_kept [OF k v d] .
  next
    fix a assume a: "a \<in> set (parts h value)"
    then have "a < length h"
      by (cases "value") (auto simp: parts_def dest: parts_at_bound)
    with changed a d show "h' ! a = h ! a" by blast
  qed
  ultimately show ?thesis by blast
qed

theorem transform_frame_witness:
  "rank (HRef 2) \<le> length [Obj [(''x'', HNum 1)], Obj [], Obj [(''hash'', HRef 1)]] \<and>
   transform_in test_libs [Obj [(''x'', HNum 1)], Obj [], Obj [(''hash'', HRef 1)]] (HRef 2) (HRef 0)
     = ([Obj [(''x'', HNum 1)],
         Obj [(''encoding'', HStr ''hex''), (''algorithm'', HStr ''md5'')],
         Obj [(''hash'', HRef 1)],
         Obj [(''x'', HNum 1)]], Inr (HStr ''digest'')) \<and>
   hash_options [Obj [(''x'', HNum 1)], Obj [], Obj [(''hash'', HRef 1)]] (HRef 2) = [1] \<and>
   parts [Obj [(''x'', HNum 1)], Obj [], Obj [(''hash'', HRef 1)]] (HRef 0) = [0] \<and>
   read [Obj [(''x'', HNum 1)],
         Obj [(''encoding'', HStr ''hex''), (''algorithm'', HStr ''md5'')],
         Obj [(''hash'', HRef 1)],
         Obj [(''x'', HNum 1)]] (HRef 0)
     = read [Obj [(''x'', HNum 1)], Obj [], Obj [(''hash'', HRef 1)]] (HRef 0)"
proof -
  let ?h = "[Obj [(''x'', HNum 1)], Obj [], Obj [(''hash'', HRef 1)]]"
  let ?h' = "[Obj [(''x'', HNum 1)],
         Obj [(''encoding'', HStr ''hex''), (''algorithm'', HStr ''md5'')],
         Obj [(''hash'', HRef 1)],
         Obj [(''x'', HNum 1)]]"
  have 1: "transform_in test_libs ?h (HRef 2) (HRef 0) = (?h', Inr (HStr ''digest''))"
    by code_simp
  have 2: "hash_options ?h (HRef 2) = [1]" by code_simp
  have 3: "parts ?h (HRef 0) = [0]" by code_simp
  from transform_frame [OF _ 1] 1 2 3 show ?thesis by simp
qed

text \<open>
  The claim C9 as stated fails when the input shares an object with the template:
  \<^verbatim>\<open>const h = {}; const t = {hash: h}; const v = {x: h};\<close> after
  \<^verbatim>\<open>new Transformation(t).transform(v)\<close> the input \<^verbatim>\<open>v\<close> is
  \<^verbatim>\<open>{x: {encoding: 'hex', algorithm: 'md5'}}\<close>.
\<close>

theorem transform_changes_shared_input:
  "read [Obj [], Obj [(''hash'', HRef 0)], Obj [(''x'', HRef 0)]] (HRef 2) = JObj [(''x'', JObj [])] \<and>
   read (fst (transform_in test_libs [Obj [], Obj [(''hash'', HRef 0)], Obj [(''x'', HRef 0)]]
                (HRef 1) (HRef 2))) (HRef 2)
     = JObj [(''x'', JObj [(''encoding'', JStr ''hex''), (''algorithm'', JStr ''md5'')])] \<and>
   snd (transform_in test_libs [Obj [], Obj [(''hash'', HRef 0)], Obj [(''x'', HRef 0)]]
          (HRef 1) (HRef 2)) = Inr (HStr ''digest'')"
  by code_simp

section \<open>Claims about the query\<close>

text \<open>
  Claim C5 says that for a query with n question marks and n arguments the i-th argument,
  JSON-encoded, is bound to the i-th question mark. The code replaces, for each argument
  in turn, the first question mark of the query as it then is. With the arguments
  \<^verbatim>\<open>["?", 1]\<close> the encoding of the first argument brings a question mark into the
  query, and the second argument is put there: the code gives \<^verbatim>\<open>{a(x:"1",y:?)}\<close>,
  where positional binding gives \<^verbatim>\<open>{a(x:"?",y:1)}\<close>.
\<close>

theorem injectArguments_question_mark:
  "injectArguments ''{a(x:?,y:?)}'' (JArr [JStr ''?'', JNum 1]) = ''{a(x:\"1\",y:?)}'' \<and>
   bind_positional ''{a(x:?,y:?)}'' (map encode_argument [JStr ''?'', JNum 1]) = ''{a(x:\"?\",y:1)}''"
  by (simp add: injectArguments_def js_replace_def encode_argument_def quote_def escape_char_def
      show_int_def show_nat.simps digit_char_def)

text \<open>
  Claim C4. For a method whose name matches and whose model exists, called with a context,
  the outcome of \<^verbatim>\<open>callMethod\<close> is decided by one call of the access check of the
  context, \<^verbatim>\<open>context.access(model, operation, data, null)\<close>. The data are all the
  parameters of the method when the operation is \<^verbatim>\<open>list\<close> or \<^verbatim>\<open>create\<close>, and
  for every other operation the identifier alone, \<^verbatim>\<open>null\<close> when the parameters have
  none. When the check gives a false value the call fails with the query error
  \<^verbatim>\<open>permission denied\<close>; when it gives a true value the operation is executed; when it
  fails, so does the call.

  The parameters are those that the method has when the check is made. They are the
  parameters that the query gave, but for \<^verbatim>\<open>readUser\<close> without parameters, which has
  by then received the identifier of the user of the context (lines 51 to 56): \<open>m'\<close> is the
  method then, and it is the method \<open>m\<close> as given in every other case.
\<close>

theorem entity_access_check:
  assumes "method_parts (name m) = Some (lower, entity)"
    and "bind_user (Some c) (operation_of lower) entity m = Inr m'"
    and "models_has models entity = Inr True"
    and "models_get models entity = Inr model"
  shows "callMethod models (Some c) m =
           (m', case access c model (operation_of lower)
                       (if operation_of lower = ''list'' \<or> operation_of lower = ''create''
                        then JObj (params m')
                        else JObj [(''id'', case map_of (params m') ''id'' of
                                              None \<Rightarrow> JNull
                                            | Some v \<Rightarrow> if v = JUndef then JNull else v)])
                       JNull of
                  Inl e \<Rightarrow> Inl e
                | Inr allowed \<Rightarrow>
                    if truthy allowed
                    then execute_operation models model (operation_of lower) m'
                    else Inl (QueryError [(None, ''permission denied'')])) \<and>
         (operation_of lower \<noteq> ''read'' \<or> entity \<noteq> ''User'' \<or> params m \<noteq> [] \<longrightarrow> m' = m)"
proof
  show "callMethod models (Some c) m =
           (m', case access c model (operation_of lower)
                       (if operation_of lower = ''list'' \<or> operation_of lower = ''create''
                        then JObj (params m')
                        else JObj [(''id'', case map_of (params m') ''id'' of
                                              None \<Rightarrow> JNull
                                            | Some v \<Rightarrow> if v = JUndef then JNull else v)])
                       JNull of
                  Inl e \<Rightarrow> Inl e
                | Inr allowed \<Rightarrow>
                    if truthy allowed
                    then execute_operation models model (operation_of lower) m'
                    else Inl (QueryError [(None, ''permission denied'')]))"
  proof (cases "operation_of lower = ''list'' \<or> operation_of lower = ''create''")
    case True
    with assms show ?thesis
      by (simp add: callMethod_def access_data_all Let_def split: sum.splits)
  next
    case False
    with assms show ?thesis
      by (simp add: callMethod_def access_data_id Let_def split: sum.splits)
  qed
  show "operation_of lower \<noteq> ''read'' \<or> entity \<noteq> ''User'' \<or> params m \<noteq> [] \<longrightarrow> m' = m"
    using assms(2) bind_user_other [of "operation_of lower" entity m "Some c"] by auto
qed

theorem entity_access_check_witness:
  "callMethod test_models (Some test_context)
      \<lparr> name = ''listPost'', params = [(''title'', JStr ''x'')], fieldNames = [''id''] \<rparr>
     = (\<lparr> name = ''listPost'', params = [(''title'', JStr ''x'')], fieldNames = [''id''] \<rparr>,
        Inl (QueryError [(None, ''permission denied'')])) \<and>
   callMethod test_models (Some test_context)
      \<lparr> name = ''deletePost'', params = [(''title'', JStr ''x'')], fieldNames = [''id''] \<rparr>
     = (\<lparr> name = ''deletePost'', params = [(''title'', JStr ''x'')], fieldNames = [''id''] \<rparr>,
        Inl (QueryError [(None, ''permission denied'')])) \<and>
   callMethod test_models (Some test_context)
      \<lparr> name = ''deletePost'', params = [(''id'', JStr ''p1'')], fieldNames = [''id''] \<rparr>
     = (\<lparr> name = ''deletePost'', params = [(''id'', JStr ''p1'')], fieldNames = [''id''] \<rparr>,
        Inr (Called () (JObj [(''id'', JStr ''p1'')])))"
proof -
  let ?l = "\<lparr> name = ''listPost'', params = [(''title'', JStr ''x'')], fieldNames = [''id''] \<rparr>"
  let ?d = "\<lparr> name = ''deletePost'', params = [(''title'', JStr ''x'')], fieldNames = [''id''] \<rparr>"
  let ?p = "\<lparr> name = ''deletePost'', params = [(''id'', JStr ''p1'')], fieldNames = [''id''] \<rparr>"
  have l1: "method_parts (name ?l) = Some (''list'', ''Post'')"
    by (simp add: method_parts_def is_lower_def is_upper_def is_word_char_def)
  have d1: "method_parts (name ?d) = Some (''delete'', ''Post'')"
    by (simp add: method_parts_def is_lower_def is_upper_def is_word_char_def)
  have p1: "method_parts (name ?p) = Some (''delete'', ''Post'')"
    by (simp add: method_parts_def is_lower_def is_upper_def is_word_char_def)
  have l2: "bind_user (Some test_context) (operation_of ''list'') ''Post'' ?l = Inr ?l"
    by (simp add: bind_user_def operation_of_def)
  have d2: "bind_user (Some test_context) (operation_of ''delete'') ''Post'' ?d = Inr ?d"
    by (simp add: bind_user_def operation_of_def)
  have p2: "bind_user (Some test_context) (operation_of ''delete'') ''Post'' ?p = Inr ?p"
    by (simp add: bind_user_def operation_of_def)
  have h: "models_has test_models ''Post'' = Inr True" by (simp add: test_models_def)
  have g: "models_get test_models ''Post'' = Inr ()" by (simp add: test_models_def)
  have e: "execute_operation test_models () ''remove'' ?p = Inr (Called () (JObj [(''id'', JStr ''p1'')]))"
    by (simp add: execute_operation_def test_models_def)
  from entity_access_check [OF l1 l2 h g] entity_access_check [OF d1 d2 h g]
    entity_access_check [OF p1 p2 h g] e
  show ?thesis
    by (simp add: operation_of_def test_context_def)
qed

section \<open>Claims about the authentication\<close>



text \<open>
  Claim C3, as amended. Every token minted by \<^verbatim>\<open>POST /token\<close> (a response with
  status 200) is the standard base64 encoding of the 32 bytes that
  \<^verbatim>\<open>Crypto.randomBytes(32)\<close> gave: 44 characters of the alphabet A-Z, a-z, 0-9,
  \<^verbatim>\<open>+\<close>, \<^verbatim>\<open>/\<close> and the padding \<^verbatim>\<open>=\<close>. It is the \<^verbatim>\<open>access_token\<close> of the
  response, and it was stored by the query \<^verbatim>\<open>createAuthnToken\<close> with the token and the
  id of the user that the first query found.
\<close>

theorem minted_token:
  assumes "token_process env options source st body = (st2, Inr (Some (200, response)))"
  shows "\<exists>random token.
           random = randomBytes 32 source \<and> length random = 32 \<and>
           token = base64_encode random \<and> length token = 44 \<and>
           set token \<subseteq> set base64_alphabet \<union> {CHR ''=''} \<and>
           response = JObj [(''access_token'', JStr token), (''token_type'', JStr ''bearer'')] \<and>
           (\<exists>username st1 result rows row uid created.
              js_get body ''username'' = Inr username \<and>
              storage_query env st (user_query options) [username] = (st1, Inr result) \<and>
              js_get result ''user'' = Inr rows \<and> js_get rows ''0'' = Inr row \<and>
              js_get row ''id'' = Inr uid \<and>
              storage_query env st1 create_token_query [JStr token, uid] = (st2, Inr created))"
proof -
  let ?token = "base64_encode (randomBytes 32 source)"
  have len: "length ?token = 44" by (rule token_length)
  then have ne: "?token \<noteq> []" by auto
  from assms ne
  have "response = JObj [(''access_token'', JStr ?token), (''token_type'', JStr ''bearer'')] \<and>
        (\<exists>username st1 result rows row uid created.
            js_get body ''username'' = Inr username \<and>
            storage_query env st (user_query options) [username] = (st1, Inr result) \<and>
            js_get result ''user'' = Inr rows \<and> js_get rows ''0'' = Inr row \<and>
            js_get row ''id'' = Inr uid \<and>
            storage_query env st1 create_token_query [JStr ?token, uid] = (st2, Inr created))"
    by (auto simp: token_process_def token_response_def Let_def
          split: sum.splits prod.splits if_splits)
  with len set_base64_encode [of "randomBytes 32 source"] length_randomBytes [of 32 source]
  show ?thesis by simp
qed

theorem minted_token_witness:
  "token_process test_env test_options of_nat [] test_body
     = ([(user_query test_options, [JStr ''alice@example.com'']),
         (create_token_query, [JStr ''AAECAwQFBgcICQoLDA0ODxAREhMUFRYXGBkaGxwdHh8='', JStr ''u1''])],
        Inr (Some (200, JObj [(''access_token'', JStr ''AAECAwQFBgcICQoLDA0ODxAREhMUFRYXGBkaGxwdHh8=''),
                              (''token_type'', JStr ''bearer'')]))) \<and>
   length ''AAECAwQFBgcICQoLDA0ODxAREhMUFRYXGBkaGxwdHh8='' = 44"
proof -
  have enc: "base64_encode (randomBytes 32 of_nat) = ''AAECAwQFBgcICQoLDA0ODxAREhMUFRYXGBkaGxwdHh8=''"
    by code_simp
  note run = token_process_test [of of_nat]
  from minted_token [OF run] run enc show ?thesis by simp
qed

text \<open>
  The claim C3 as stated, a base64url string, fails: when the random source gives the byte
  0xFF 32 times, the token is made of the characters \<^verbatim>\<open>/\<close> and \<^verbatim>\<open>=\<close>, which are
  not in the base64url alphabet.
\<close>

theorem minted_token_not_base64url:
  "token_process test_env test_options (\<lambda>i. 255) [] test_body
     = ([(user_query test_options, [JStr ''alice@example.com'']),
         (create_token_query, [JStr ''//////////////////////////////////////////8='', JStr ''u1''])],
        Inr (Some (200, JObj [(''access_token'', JStr ''//////////////////////////////////////////8=''),
                              (''token_type'', JStr ''bearer'')]))) \<and>
   CHR ''/'' \<notin> set base64url_alphabet \<and> CHR ''='' \<notin> set base64url_alphabet"
proof -
  have enc: "base64_encode (randomBytes 32 (\<lambda>i. 255)) = ''//////////////////////////////////////////8=''"
    by code_simp
  from token_process_test [of "\<lambda>i. 255"] enc show ?thesis
    by (simp add: base64url_alphabet_def)
qed

text \<open>
  Claim C10. When the request carries a Bearer token and the lookup of the token returns no
  rows, the authentication rejects with the error \<^verbatim>\<open>Invalid access token\<close>; and when
  the authentication gives a context, the lookup returned at least one row and the user
  of the context is the user of the first row.
\<close>

theorem bearer_lookup:
  assumes "match_scheme ''Bearer '' header = Some token"
    and "storage_query env st (bearer_query options) [JStr token] = (st', Inr result)"
    and "js_get result ''token'' = Inr (JArr rows)"
  shows "(rows = [] \<longrightarrow>
            authenticate env options st (JStr header) = (st', Inl (Error ''Invalid access token''))) \<and>
         (\<forall>c. snd (authenticate env options st (JStr header)) = Inr c \<longrightarrow>
            (\<exists>row more u. rows = row # more \<and> js_get row ''user'' = Inr u
                            \<and> c = Context (Some u)))"
proof (intro conjI impI allI)
  assume "rows = []"
  with assms show "authenticate env options st (JStr header)
                     = (st', Inl (Error ''Invalid access token''))"
    by (simp add: authenticate_bearer bearer_auth_def)
next
  fix c
  assume ok: "snd (authenticate env options st (JStr header)) = Inr c"
  have "rows \<noteq> []"
  proof
    assume "rows = []"
    with assms ok show False by (simp add: authenticate_bearer bearer_auth_def)
  qed
  then obtain row more where rows: "rows = row # more" by (cases rows) auto
  from assms ok rows
  have "\<exists>u. js_get row ''user'' = Inr u \<and> c = Context (Some u)"
    by (auto simp: authenticate_bearer bearer_auth_def setUser_def array_index_zero
          split: sum.splits)
  with rows show "\<exists>row more u. rows = row # more \<and> js_get row ''user'' = Inr u
                            \<and> c = Context (Some u)"
    by blast
qed

theorem bearer_lookup_witness:
  "authenticate test_env test_options [] (JStr ''Bearer abc'')
     = ([(''{token:listAuthnToken(token:?){user{id}}}'', [JStr ''abc''])],
        Inl (Error ''Invalid access token''))"
proof -
  have 1: "match_scheme ''Bearer '' ''Bearer abc'' = Some ''abc''"
    by (simp add: match_scheme_def)
  have 2: "storage_query test_env [] (bearer_query test_options) [JStr ''abc'']
             = ([(''{token:listAuthnToken(token:?){user{id}}}'', [JStr ''abc''])],
                Inr (JObj [(''user'', JArr [JObj [(''id'', JStr ''u1''),
                                           (''password'', JStr ''hash-of-Welcome!'')]]),
                      (''token'', JArr [])]))"
    by (simp add: test_env_def test_options_def bearer_query_def)
  have 3: "js_get (JObj [(''user'', JArr [JObj [(''id'', JStr ''u1''),
                                           (''password'', JStr ''hash-of-Welcome!'')]]),
                      (''token'', JArr [])]) ''token'' = Inr (JArr [])"
    by simp
  from bearer_lookup [OF 1 2 3] show ?thesis by simp
qed

end
